theory Spec2Isabelle
  imports Main
begin

section \<open>browse.c: constants and character classes\<close>

text \<open>
  The macros of \<^verbatim>\<open>browse.c\<close>, under their own names. \<open>LINE_NUM_BUF_LEN\<close> is
  \<^verbatim>\<open>sizeof(line_num_buf)\<close> of the local array \<^verbatim>\<open>char line_num_buf[32]\<close>.
  A byte read by \<^verbatim>\<open>fgetc\<close> is a \<^typ>\<open>char\<close> (eight bits); end of file is the
  absence of a byte.
\<close>

definition MATCH_PATH_LEN :: nat where
  "MATCH_PATH_LEN = 256"

definition MATCH_DESCRIPTION_LEN :: nat where
  "MATCH_DESCRIPTION_LEN = 256"

definition LINE_NUM_BUF_LEN :: nat where
  "LINE_NUM_BUF_LEN = 32"

definition MATCH_CHUNK_LEN :: nat where
  "MATCH_CHUNK_LEN = 32"

definition SEPARATOR :: char where
  "SEPARATOR = CHR '':''"

definition TAB_REPL :: char where
  "TAB_REPL = CHR '' ''"

definition TAB_STOP :: nat where
  "TAB_STOP = 4"

definition NONPRINT_REPL :: char where
  "NONPRINT_REPL = CHR ''.''"

definition NUL :: char where
  "NUL = CHR 0x00"

definition newline :: char where
  "newline = CHR 0x0A"

definition tab :: char where
  "tab = CHR 0x09"

definition EOF :: int where
  "EOF = - 1"

definition INT_MAX :: int where
  "INT_MAX = 2147483647"

definition INT_MIN :: int where
  "INT_MIN = - 2147483648"

text \<open>
  The classes of \<^verbatim>\<open>ctype.h\<close> in the "C" locale (the program never calls
  \<^verbatim>\<open>setlocale\<close>): the printable characters are the codes 32 to 126.
\<close>

definition isprint :: "char \<Rightarrow> bool" where
  "isprint c = (32 \<le> (of_char c :: nat) \<and> (of_char c :: nat) \<le> 126)"

definition isspace :: "char \<Rightarrow> bool" where
  "isspace c = ((of_char c :: nat) = 32 \<or> (9 \<le> (of_char c :: nat) \<and> (of_char c :: nat) \<le> 13))"

definition isdigit :: "char \<Rightarrow> bool" where
  "isdigit c = (48 \<le> (of_char c :: nat) \<and> (of_char c :: nat) \<le> 57)"

section \<open>struct match and the frame of parse_next_match\<close>

text \<open>
  \<^verbatim>\<open>struct match\<close>: the two character arrays are lists of bytes, whose length
  is the declared size; \<open>line\<close> is the \<^verbatim>\<open>int\<close> of 32 bits, \<open>None\<close> while it
  holds no value that can be told (a string read past the end of its array). The pointer
  \<^verbatim>\<open>name\<close> is set after parsing only and is left out.

  The frame extends it with the locals of \<^verbatim>\<open>parse_next_match\<close>. The pointer
  \<^verbatim>\<open>buffer\<close> is the array it points into and the offset from its start. \<open>oob\<close>
  lists, in order, the stores whose offset is not below the declared size of the array.
  Such a store leaves every array of the frame as it is. What it hits in the compiled
  program depends on where it lands:
  \<^item> \<^verbatim>\<open>filepath + MATCH_PATH_LEN\<close> is the first byte of \<^verbatim>\<open>line\<close>, which follows
    the array in the struct with no padding; the byte order is little-endian, so the
    store replaces the low byte of \<open>line\<close> (\<open>store_low_byte\<close>);
  \<^item> \<^verbatim>\<open>line_num_buf + LINE_NUM_BUF_LEN\<close> is a byte of the stack past the local
    array, and \<^verbatim>\<open>description + MATCH_DESCRIPTION_LEN\<close> is the first byte of the
    next slot of \<^verbatim>\<open>matchv\<close>, or the byte after the heap block when the slot is
    the last one: both lie outside the frame, so these stores are listed in \<open>oob\<close>
    and nothing else of the frame changes.
\<close>

datatype field = Filepath | Line_num_buf | Description

record match =
  filepath :: "char list"
  line :: "int option"
  description :: "char list"

record frame = match +
  line_num_buf :: "char list"
  buffer :: "field \<times> nat"
  buffer_avail :: nat
  state :: nat
  oob :: "(field \<times> nat) list"

fun sizeof :: "field \<Rightarrow> nat" where
  "sizeof Filepath = MATCH_PATH_LEN"
| "sizeof Line_num_buf = LINE_NUM_BUF_LEN"
| "sizeof Description = MATCH_DESCRIPTION_LEN"

fun array :: "field \<Rightarrow> frame \<Rightarrow> char list" where
  "array Filepath f = filepath f"
| "array Line_num_buf f = line_num_buf f"
| "array Description f = description f"

fun array_update :: "field \<Rightarrow> char list \<Rightarrow> frame \<Rightarrow> frame" where
  "array_update Filepath xs f = f\<lparr>filepath := xs\<rparr>"
| "array_update Line_num_buf xs f = f\<lparr>line_num_buf := xs\<rparr>"
| "array_update Description xs f = f\<lparr>description := xs\<rparr>"

text \<open>The \<^verbatim>\<open>int\<close> \<open>x\<close> after the byte \<open>v\<close> has been stored at its lowest address.\<close>

definition store_low_byte :: "char \<Rightarrow> int \<Rightarrow> int" where
  "store_low_byte v x = x - x mod 256 + of_char v"

text \<open>\<^verbatim>\<open>*buffer = v\<close>\<close>

definition put :: "char \<Rightarrow> frame \<Rightarrow> frame" where
  "put v f =
     (case buffer f of (b, i) \<Rightarrow>
        if i < sizeof b then array_update b ((array b f)[i := v]) f
        else if b = Filepath \<and> i = MATCH_PATH_LEN
        then f\<lparr>line := map_option (store_low_byte v) (line f), oob := oob f @ [(b, i)]\<rparr>
        else f\<lparr>oob := oob f @ [(b, i)]\<rparr>)"

text \<open>\<^verbatim>\<open>*buffer++ = v\<close>\<close>

definition put_incr :: "char \<Rightarrow> frame \<Rightarrow> frame" where
  "put_incr v f = (put v f)\<lparr>buffer := (fst (buffer f), Suc (snd (buffer f)))\<rparr>"

text \<open>
  The inner loop \<^verbatim>\<open>for (unsigned i = 0; i < appendcount; ++i)\<close>: its first
  argument is \<^verbatim>\<open>appendcount\<close>.
\<close>

fun append :: "nat \<Rightarrow> char \<Rightarrow> frame \<Rightarrow> frame" where
  "append 0 ch f = f"
| "append (Suc n) ch f =
     append n ch
       (if buffer_avail f = 0 then f
        else if buffer_avail f - 1 = 0 then put_incr NUL (f\<lparr>buffer_avail := buffer_avail f - 1\<rparr>)
        else put_incr ch (f\<lparr>buffer_avail := buffer_avail f - 1\<rparr>))"

text \<open>
  The state transition at a structural separator: terminate the current buffer, point
  \<^verbatim>\<open>buffer\<close> at the next array, terminate that one at its start, \<^verbatim>\<open>++state\<close>.
\<close>

definition switch_buffer :: "field \<Rightarrow> frame \<Rightarrow> frame" where
  "switch_buffer b f =
     (let f1 = put NUL f;
          f2 = f1\<lparr>buffer := (b, 0), buffer_avail := sizeof b\<rparr>;
          f3 = put NUL f2
      in f3\<lparr>state := Suc (state f3)\<rparr>)"

text \<open>One pass through the body of the outer loop, on the byte \<open>ch\<close>.\<close>

datatype flow = Continue frame | Break frame

definition body :: "char \<Rightarrow> frame \<Rightarrow> flow" where
  "body ch f =
     (if ch = SEPARATOR then
        (if state f = 0 then Continue (append 0 ch (switch_buffer Line_num_buf f))
         else if state f = 1 then Continue (append 0 ch (switch_buffer Description f))
         else Continue (append 1 ch f))
      else if ch = newline then Break (put NUL f)
      else if \<not> isprint ch then
        (if ch = tab then Continue (append TAB_STOP TAB_REPL f)
         else Continue (append 1 NONPRINT_REPL f))
      else Continue (append 1 ch f))"

text \<open>
  The outer loop \<^verbatim>\<open>for ( ; ch != EOF; ch = fgetc(fp))\<close> over the bytes left in the
  stream. It returns the last value of \<^verbatim>\<open>ch\<close> (\<open>None\<close> is \<^verbatim>\<open>EOF\<close>), the bytes
  left unread and the frame.
\<close>

fun for_loop :: "char list \<Rightarrow> frame \<Rightarrow> char option \<times> char list \<times> frame" where
  "for_loop [] f = (None, [], f)"
| "for_loop (ch # fp) f =
     (case body ch f of
        Break f' \<Rightarrow> (Some ch, fp, f')
      | Continue f' \<Rightarrow> for_loop fp f')"

section \<open>atoi\<close>

text \<open>
  \<^verbatim>\<open>atoi\<close> as the C library the program runs with computes it (glibc):
  \<^verbatim>\<open>(int) strtol (nptr, NULL, 10)\<close>, with a \<^verbatim>\<open>long\<close> of 64 bits and an
  \<^verbatim>\<open>int\<close> of 32. \<open>spelled\<close> is the number the text spells: white space is
  skipped, one sign is read, then the longest run of decimal digits; no digits give 0.
  \<^verbatim>\<open>strtol\<close> returns it, or \<open>LONG_MAX\<close> or \<open>LONG_MIN\<close> when it lies beyond them;
  the conversion to \<^verbatim>\<open>int\<close> keeps the low 32 bits, read in two's complement.
  (The C standard promises nothing for a number that is no \<^verbatim>\<open>int\<close>; the library
  does this.) \<open>c_string\<close> reads an array as a C string, up to its first NUL; an array
  with no NUL is read past its end, which is \<open>None\<close>.
\<close>

fun digits_value :: "nat \<Rightarrow> char list \<Rightarrow> nat" where
  "digits_value acc [] = acc"
| "digits_value acc (c # cs) =
     (if isdigit c then digits_value (acc * 10 + ((of_char c :: nat) - 48)) cs else acc)"

definition signed_value :: "char list \<Rightarrow> int" where
  "signed_value s =
     (case s of
        [] \<Rightarrow> 0
      | c # cs \<Rightarrow>
          if c = CHR ''-'' then - int (digits_value 0 cs)
          else if c = CHR ''+'' then int (digits_value 0 cs)
          else int (digits_value 0 s))"

definition spelled :: "char list \<Rightarrow> int" where
  "spelled s = signed_value (dropWhile isspace s)"

definition LONG_MAX :: int where
  "LONG_MAX = 9223372036854775807"

definition LONG_MIN :: int where
  "LONG_MIN = - 9223372036854775808"

definition strtol :: "char list \<Rightarrow> int" where
  "strtol s =
     (let v = spelled s
      in if v < LONG_MIN then LONG_MIN else if LONG_MAX < v then LONG_MAX else v)"

definition int_of_long :: "int \<Rightarrow> int" where
  "int_of_long v = (v + 2147483648) mod 4294967296 - 2147483648"

definition atoi :: "char list \<Rightarrow> int" where
  "atoi s = int_of_long (strtol s)"

definition c_string :: "char list \<Rightarrow> char list option" where
  "c_string xs = (if NUL \<in> set xs then Some (takeWhile (\<lambda>c. c \<noteq> NUL) xs) else None)"

section \<open>parse_next_match\<close>

text \<open>
  \<open>parse_next_match junk fp m\<close>: \<open>fp\<close> is what is left of the stream, \<open>m\<close> the
  slot \<^verbatim>\<open>*m\<close> as the caller passes it, \<open>junk\<close> the bytes the local array
  \<^verbatim>\<open>line_num_buf\<close> happens to hold on entry. The result is the return code
  (\<open>EOF\<close>, 0 or 1), the stream left, and the frame at the return, which holds
  the slot as the call leaves it.
\<close>

definition enter :: "char list \<Rightarrow> match \<Rightarrow> frame" where
  "enter junk m =
     \<lparr>filepath = filepath m, line = line m, description = description m,
      line_num_buf = junk, buffer = (Filepath, 0), buffer_avail = sizeof Filepath,
      state = 0, oob = []\<rparr>"

definition parse_next_match :: "char list \<Rightarrow> char list \<Rightarrow> match \<Rightarrow> int \<times> char list \<times> frame" where
  "parse_next_match junk fp m =
     (case for_loop fp (enter junk m) of (ch, fp', f) \<Rightarrow>
        if state f = 2 then
          (if ch = None then EOF else 0, fp',
           f\<lparr>line := map_option atoi (c_string (line_num_buf f))\<rparr>)
        else (if ch = None then EOF else 1, fp', f))"

section \<open>The match store and build_menu\<close>

text \<open>
  The globals \<^verbatim>\<open>matchc\<close>, \<^verbatim>\<open>matcha\<close> and \<^verbatim>\<open>matchv\<close>; both counters are
  \<^verbatim>\<open>size_t\<close>, far from wrapping while the array fits in memory. What the program
  takes from outside is an \<open>env\<close>: the bytes a fresh stack array and a fresh heap slot
  happen to hold, whether \<^verbatim>\<open>realloc\<close> grants a given number of slots, and what
  \<^verbatim>\<open>wait\<close> reports (\<open>None\<close> when it returns -1, else the status word).
\<close>

record globals =
  matchc :: nat
  matcha :: nat
  matchv :: "match list"

record env =
  stack_junk :: "char list"
  heap_junk :: match
  realloc_ok :: "nat \<Rightarrow> bool"
  wait_status :: "int option"

datatype error = Out_of_memory | Slot_out_of_range

definition resize_matchv :: "env \<Rightarrow> globals \<Rightarrow> error + globals" where
  "resize_matchv e g =
     (if matchc g = matcha g then
        (if realloc_ok e (matcha g + MATCH_CHUNK_LEN)
         then Inr (g\<lparr>matcha := matcha g + MATCH_CHUNK_LEN,
                     matchv := matchv g @ replicate MATCH_CHUNK_LEN (heap_junk e)\<rparr>)
         else Inl Out_of_memory)
      else Inr g)"

definition init_matchv :: "env \<Rightarrow> error + globals" where
  "init_matchv e = resize_matchv e \<lparr>matchc = 0, matcha = 0, matchv = []\<rparr>"

text \<open>The slot \<^verbatim>\<open>*m\<close> as a call of \<^verbatim>\<open>parse_next_match\<close> leaves it.\<close>

definition slot_of :: "frame \<Rightarrow> match" where
  "slot_of f = \<lparr>filepath = filepath f, line = line f, description = description f\<rparr>"

text \<open>
  The loop \<^verbatim>\<open>for (init_matchv(); (rc = parse_next_match(fp, &matchv[matchc])) != EOF;
  resize_matchv()) matchc += (rc == 0)? 1 : 0;\<close> from its first test on. A slot index
  outside the array is an error of its own, never reached from \<open>init_matchv\<close>.
  The loop ends: a call returns 0 or 1 only after it has read a newline, so each turn
  that goes on has a shorter stream.
\<close>

function parse_loop :: "env \<Rightarrow> char list \<Rightarrow> globals \<Rightarrow> error + globals" where
  "parse_loop e fp g =
     (if matchc g < length (matchv g) then
        (case parse_next_match (stack_junk e) fp (matchv g ! matchc g) of
           (rc, fp', f) \<Rightarrow>
             if rc = EOF then Inr (g\<lparr>matchv := (matchv g)[matchc g := slot_of f]\<rparr>)
             else
               (case resize_matchv e
                       (g\<lparr>matchv := (matchv g)[matchc g := slot_of f],
                          matchc := matchc g + (if rc = 0 then 1 else 0)\<rparr>) of
                  Inl err \<Rightarrow> Inl err
                | Inr g' \<Rightarrow> parse_loop e fp' g'))
      else Inl Slot_out_of_range)"
  by pat_completeness auto
termination
  apply (relation "measure (\<lambda>(e, fp, g). length fp)")
   apply simp
  apply clarsimp
  subgoal premises prems for e fp g rc fp' f g2
  proof -
    have shorter: "length fp2 < length fp1" if "for_loop fp1 f1 = (Some ch, fp2, f2)"
      for fp1 fp2 f1 f2 ch
      using that
    proof (induction fp1 arbitrary: f1)
      case Nil
      then show ?case by simp
    next
      case (Cons c cs)
      then show ?case by (cases "body c f1") (auto dest: Cons.IH)
    qed
    from prems(2) [symmetric] prems(3) show "length fp' < length fp"
      by (auto simp: parse_next_match_def split: prod.splits if_splits dest: shorter)
  qed
  done

declare parse_loop.simps [simp del]

text \<open>
  \<^verbatim>\<open>WEXITSTATUS\<close> of \<^verbatim>\<open>sys/wait.h\<close>: bits 8 to 15 of the status word. The
  status word of a child that exited with code \<open>c\<close> is \<open>W_EXITCODE c\<close>.
\<close>

definition WEXITSTATUS :: "int \<Rightarrow> int" where
  "WEXITSTATUS status = (status div 256) mod 256"

definition W_EXITCODE :: "int \<Rightarrow> int" where
  "W_EXITCODE c = (c mod 256) * 256"

definition EXIT_FAILURE :: int where
  "EXIT_FAILURE = 1"

definition msg_out_of_memory :: string where
  "msg_out_of_memory = ''Error: out of memory (line 111)'' @ [newline]"

definition msg_wait_failed :: string where
  "msg_wait_failed = ''Cannot read child process exit status''"

definition msg_unable_to_parse :: string where
  "msg_unable_to_parse =
     ''Unable to parse matches. (Did you forget to specify the ''
     @ [CHR 0x27] @ ''-n'' @ [CHR 0x27] @ '' option to grep?)'' @ [newline]"

definition msg_no_matches :: string where
  "msg_no_matches = ''No matches.'' @ [newline]"

text \<open>
  \<^verbatim>\<open>build_menu\<close> up to the point where the menu items are built: either the
  process exits, with a status and what it wrote to \<^verbatim>\<open>stderr\<close> (for \<^verbatim>\<open>perror\<close>
  the prefix it was given), or the interactive phase starts on the store. A failed
  \<^verbatim>\<open>realloc\<close> ends the process in \<^verbatim>\<open>mensure\<close>; a slot outside the array
  would leave the behaviour undefined.
\<close>

datatype outcome = Exit int "string list" | Interactive globals | Undefined_behaviour

definition give_up :: "error \<Rightarrow> outcome" where
  "give_up err =
     (case err of
        Out_of_memory \<Rightarrow> Exit EXIT_FAILURE [msg_out_of_memory]
      | Slot_out_of_range \<Rightarrow> Undefined_behaviour)"

definition build_menu :: "env \<Rightarrow> char list \<Rightarrow> outcome" where
  "build_menu e fp =
     (case init_matchv e of
        Inl err \<Rightarrow> give_up err
      | Inr g0 \<Rightarrow>
          (case parse_loop e fp g0 of
             Inl err \<Rightarrow> give_up err
           | Inr g \<Rightarrow>
               if matchc g = 0 then
                 (case wait_status e of
                    None \<Rightarrow> Exit EXIT_FAILURE [msg_wait_failed]
                  | Some status \<Rightarrow>
                      Exit (WEXITSTATUS status)
                        (if WEXITSTATUS status = 0 then [msg_unable_to_parse]
                         else if WEXITSTATUS status = 1 then [msg_no_matches]
                         else []))
               else Interactive g))"

section \<open>The text a buffer receives\<close>

text \<open>
  Notions for the proofs. \<open>feed cs f\<close> is the frame after the loop body has run on each
  byte of \<open>cs\<close>. \<open>sanitize\<close> is the text the bytes of one field stand for: a printable
  byte for itself, a tab for \<open>TAB_STOP\<close> spaces, any other byte for one placeholder.
  \<open>tracks f t\<close> says that the current buffer has been offered the text \<open>t\<close> since
  \<open>buffer\<close> was pointed at it: it holds \<open>t\<close> from its start while \<open>t\<close> is shorter
  than the array, and otherwise all but one byte of the array's size of \<open>t\<close>, then a NUL.
  \<open>same_rest f f'\<close>: nothing but the current buffer, its pointer and
  \<open>buffer_avail\<close> differs between the frames. \<open>overflow b t\<close> is the store past
  the end of array \<open>b\<close> that terminating the text \<open>t\<close> there makes.
\<close>

fun feed :: "char list \<Rightarrow> frame \<Rightarrow> frame" where
  "feed [] f = f"
| "feed (c # cs) f = feed cs (case body c f of Continue f' \<Rightarrow> f' | Break f' \<Rightarrow> f')"

definition sanitize_char :: "char \<Rightarrow> char list" where
  "sanitize_char c =
     (if isprint c then [c]
      else if c = tab then replicate TAB_STOP TAB_REPL
      else [NONPRINT_REPL])"

definition sanitize :: "char list \<Rightarrow> char list" where
  "sanitize cs = concat (map sanitize_char cs)"

definition tracks :: "frame \<Rightarrow> char list \<Rightarrow> bool" where
  "tracks f t =
     (case buffer f of (b, i) \<Rightarrow>
        length (array b f) = sizeof b \<and>
        (if length t < sizeof b
         then i = length t \<and> buffer_avail f = sizeof b - length t \<and> take i (array b f) = t
         else i = sizeof b \<and> buffer_avail f = 0 \<and> array b f = take (sizeof b - 1) t @ [NUL]))"

definition same_rest :: "frame \<Rightarrow> frame \<Rightarrow> bool" where
  "same_rest f f' =
     (state f' = state f \<and> fst (buffer f') = fst (buffer f) \<and> oob f' = oob f \<and>
      line f' = line f \<and> (\<forall>b. b \<noteq> fst (buffer f) \<longrightarrow> array b f' = array b f))"

definition overflow :: "field \<Rightarrow> char list \<Rightarrow> (field \<times> nat) list" where
  "overflow b t = (if length t < sizeof b then [] else [(b, sizeof b)])"

section \<open>Concrete surroundings\<close>

text \<open>
  A slot and a stack array full of question marks, as fresh memory may be (the four
  bytes of \<open>line\<close> too: 1061109567 is \<^verbatim>\<open>0x3f3f3f3f\<close>), and an
  environment in which \<^verbatim>\<open>realloc\<close> always succeeds and \<^verbatim>\<open>wait\<close> reports the
  status word \<open>w\<close>. The examples below run the program in them.
\<close>

definition fresh_slot :: match where
  "fresh_slot = \<lparr>filepath = replicate MATCH_PATH_LEN (CHR ''?''), line = Some 1061109567,
      description = replicate MATCH_DESCRIPTION_LEN (CHR ''?'')\<rparr>"

definition fresh_junk :: "char list" where
  "fresh_junk = replicate LINE_NUM_BUF_LEN (CHR ''?'')"

definition env0 :: "int option \<Rightarrow> env" where
  "env0 w = \<lparr>stack_junk = fresh_junk, heap_junk = fresh_slot,
      realloc_ok = (\<lambda>n. True), wait_status = w\<rparr>"

section \<open>The store as the loop sees it\<close>

text \<open>
  \<open>records g\<close> are the matches the store holds: the first \<open>matchc\<close> slots. \<open>store_inv\<close>
  is what holds of the globals each time the loop of \<^verbatim>\<open>build_menu\<close> calls the parser:
  the slot to fill exists, and the capacity is the least multiple of the chunk size above
  the count. \<open>store0\<close> is the store \<open>init_matchv\<close> makes in the environment \<open>env0\<close>.
\<close>

definition records :: "globals \<Rightarrow> match list" where
  "records g = take (matchc g) (matchv g)"

definition store_inv :: "globals \<Rightarrow> bool" where
  "store_inv g = (matchc g < matcha g \<and> length (matchv g) = matcha g \<and>
     matcha g = MATCH_CHUNK_LEN * (matchc g div MATCH_CHUNK_LEN + 1))"

definition store0 :: globals where
  "store0 = \<lparr>matchc = 0, matcha = MATCH_CHUNK_LEN,
              matchv = replicate MATCH_CHUNK_LEN fresh_slot\<rparr>"

section \<open>The records of a stream\<close>

text \<open>
  The number of records a stream holds, as the header comment of the parser describes a
  record: a line that ends in a newline and has at least two separators before it. The
  first argument of \<open>matches_from\<close> is the number of separators met so far in the line
  at hand.
\<close>

fun matches_from :: "nat \<Rightarrow> char list \<Rightarrow> nat" where
  "matches_from k [] = 0"
| "matches_from k (c # cs) =
     (if c = newline then (if 2 \<le> k then 1 else 0) + matches_from 0 cs
      else matches_from (if c = SEPARATOR then Suc k else k) cs)"

definition matches_in :: "char list \<Rightarrow> nat" where
  "matches_in fp = matches_from 0 fp"

section \<open>Writing a record out\<close>

text \<open>
  The line a producer writes for a record, as the parser's header comment gives it:
  the path, a separator, the line number in decimal digits, a separator, the
  description, a newline. \<open>dec\<close> renders a number the way \<^verbatim>\<open>printf("%d")\<close> renders
  one that is not negative.
\<close>

definition digit_char :: "nat \<Rightarrow> char" where
  "digit_char k = char_of (48 + k)"

function dec :: "nat \<Rightarrow> char list" where
  "dec k = (if k < 10 then [digit_char k] else dec (k div 10) @ [digit_char (k mod 10)])"
  by pat_completeness auto
termination
  by (relation "measure id") auto

declare dec.simps [simp del]

definition serialize :: "char list \<Rightarrow> nat \<Rightarrow> char list \<Rightarrow> char list" where
  "serialize p k d = p @ [SEPARATOR] @ dec k @ [SEPARATOR] @ d @ [newline]"

section \<open>Frames the loop can reach\<close>

text \<open>
  \<open>frame_ok\<close> holds of the frame on entry and after every byte: the current buffer
  tracks some text, and every array has its declared size.
\<close>

definition frame_ok :: "frame \<Rightarrow> bool" where
  "frame_ok f = ((\<exists>t. tracks f t) \<and> (\<forall>b. length (array b f) = sizeof b))"

section \<open>The end of the stream\<close>

lemma parse_next_match_Nil: "parse_next_match junk [] m = (EOF, [], enter junk m)"
  by (simp add: parse_next_match_def enter_def)

lemma slot_of_enter: "slot_of (enter junk m) = m"
  by (simp add: slot_of_def enter_def)

lemma parse_loop_Nil:
  "matchc g < length (matchv g) \<Longrightarrow> parse_loop e [] g = Inr g"
  by (simp add: parse_loop.simps [of e "[]" g] parse_next_match_Nil slot_of_enter)

section \<open>Frames\<close>

subsection \<open>arrays\<close>

lemma sizeof_pos: "0 < sizeof b"
  by (cases b) (simp_all add: MATCH_PATH_LEN_def LINE_NUM_BUF_LEN_def MATCH_DESCRIPTION_LEN_def)

lemma array_array_update: "array b (array_update b' xs f) = (if b = b' then xs else array b f)"
  by (cases b; cases b') simp_all

lemma array_update_fields:
  "buffer (array_update b xs f) = buffer f"
  "buffer_avail (array_update b xs f) = buffer_avail f"
  "state (array_update b xs f) = state f"
  "oob (array_update b xs f) = oob f"
  "line (array_update b xs f) = line f"
  by (cases b; simp)+

lemma array_other_fields:
  "array b (f\<lparr>buffer := p\<rparr>) = array b f"
  "array b (f\<lparr>buffer_avail := n\<rparr>) = array b f"
  "array b (f\<lparr>state := s\<rparr>) = array b f"
  "array b (f\<lparr>oob := l\<rparr>) = array b f"
  "array b (f\<lparr>line := v\<rparr>) = array b f"
  by (cases b; simp)+

lemmas array_simps = array_array_update array_update_fields array_other_fields

subsection \<open>state and buffer\<close>

lemma put_fields:
  "state (put v f) = state f" "buffer (put v f) = buffer f"
  "buffer_avail (put v f) = buffer_avail f"
  by (simp_all add: put_def array_simps split: prod.splits)

lemma put_incr_fields:
  "state (put_incr v f) = state f" "fst (buffer (put_incr v f)) = fst (buffer f)"
  "buffer_avail (put_incr v f) = buffer_avail f"
  by (simp_all add: put_incr_def put_fields)

lemma append_fields:
  "state (append n ch f) = state f \<and> fst (buffer (append n ch f)) = fst (buffer f)"
  by (induction n arbitrary: f) (simp_all add: put_incr_fields)

lemma switch_buffer_fields:
  "state (switch_buffer b f) = Suc (state f)" "buffer (switch_buffer b f) = (b, 0)"
  "buffer_avail (switch_buffer b f) = sizeof b"
  by (simp_all add: switch_buffer_def Let_def put_fields)

lemma body_not_newline: "c \<noteq> newline \<Longrightarrow> \<exists>f'. body c f = Continue f'"
  by (simp add: body_def)

lemma body_newline: "body newline f = Break (put NUL f)"
  by (simp add: body_def SEPARATOR_def newline_def)

lemma for_loop_feed: "newline \<notin> set cs \<Longrightarrow> for_loop (cs @ fp) f = for_loop fp (feed cs f)"
proof (induction cs arbitrary: f)
  case Nil
  then show ?case by simp
next
  case (Cons c cs)
  from Cons.prems obtain f' where "body c f = Continue f'"
    using body_not_newline [of c f] by auto
  with Cons show ?case by simp
qed

lemma for_loop_line:
  "newline \<notin> set cs \<Longrightarrow> for_loop (cs @ newline # fp) f = (Some newline, fp, put NUL (feed cs f))"
  by (simp add: for_loop_feed body_newline)

lemma for_loop_eof: "newline \<notin> set cs \<Longrightarrow> for_loop cs f = (None, [], feed cs f)"
  using for_loop_feed [of cs "[]" f] by simp

lemma state_body:
  "state (case body c f of Continue f' \<Rightarrow> f' | Break f' \<Rightarrow> f') =
     (if c = SEPARATOR \<and> state f < 2 then Suc (state f) else state f)"
  by (auto simp: body_def append_fields switch_buffer_fields put_fields simp del: append.simps)

lemma state_feed:
  "state (feed cs f) = (if 2 \<le> state f then state f else min 2 (state f + count_list cs SEPARATOR))"
proof (induction cs arbitrary: f)
  case Nil
  then show ?case by simp
next
  case (Cons c cs)
  show ?case
    by (simp add: Cons.IH state_body) 
qed

subsection \<open>lengths\<close>

lemma length_array_put: "length (array b (put v f)) = length (array b f)"
  by (simp add: put_def array_simps split: prod.splits)

lemma length_array_put_incr: "length (array b (put_incr v f)) = length (array b f)"
  by (simp add: put_incr_def array_simps length_array_put)

lemma length_array_append: "length (array b (append n ch f)) = length (array b f)"
  by (induction n arbitrary: f) (simp_all add: length_array_put_incr array_simps)

lemma length_array_switch_buffer: "length (array b (switch_buffer b' f)) = length (array b f)"
  by (simp add: switch_buffer_def Let_def array_simps length_array_put)

lemma length_array_body:
  "length (array b (case body c f of Continue f' \<Rightarrow> f' | Break f' \<Rightarrow> f')) = length (array b f)"
  by (simp add: body_def length_array_append length_array_switch_buffer length_array_put
      del: append.simps)

lemma length_array_feed: "length (array b (feed cs f)) = length (array b f)"
  by (induction cs arbitrary: f) (simp_all add: length_array_body)

subsection \<open>one character\<close>

lemma list_update_last: "length xs = Suc n \<Longrightarrow> xs[n := v] = take n xs @ [v]"
  by (simp add: upd_conv_take_nth_drop)

lemma same_rest_refl: "same_rest f f"
  by (simp add: same_rest_def)

lemma same_rest_trans: "same_rest f f' \<Longrightarrow> same_rest f' f'' \<Longrightarrow> same_rest f f''"
  by (simp add: same_rest_def)

lemma tracks_full:
  "tracks f t \<Longrightarrow> buffer_avail f = 0 \<Longrightarrow> tracks f (t @ s)"
  using sizeof_pos [of "fst (buffer f)"]
  by (auto simp: tracks_def split: prod.splits if_splits)

lemma append1_last:
  assumes "tracks f t" and "buffer_avail f = Suc 0"
  shows "tracks (put_incr NUL (f\<lparr>buffer_avail := 0\<rparr>)) (t @ [ch])"
    and "same_rest f (put_incr NUL (f\<lparr>buffer_avail := 0\<rparr>))"
proof -
  obtain b i where bi: "buffer f = (b, i)" by (cases "buffer f")
  from assms bi have len: "length (array b f) = sizeof b" and lt: "length t < sizeof b"
    and i: "i = length t" and sz: "sizeof b = Suc (length t)" and tk: "take i (array b f) = t"
    by (auto simp: tracks_def split: if_splits)
  show "tracks (put_incr NUL (f\<lparr>buffer_avail := 0\<rparr>)) (t @ [ch])"
    using bi len i sz tk
    by (simp add: tracks_def put_incr_def put_def array_simps list_update_last)
  show "same_rest f (put_incr NUL (f\<lparr>buffer_avail := 0\<rparr>))"
    using bi i sz
    by (simp add: same_rest_def put_incr_def put_def array_simps)
qed

lemma append1_room:
  assumes "tracks f t" and "Suc 0 < buffer_avail f"
  shows "tracks (put_incr ch (f\<lparr>buffer_avail := buffer_avail f - 1\<rparr>)) (t @ [ch])"
    and "same_rest f (put_incr ch (f\<lparr>buffer_avail := buffer_avail f - 1\<rparr>))"
proof -
  obtain b i where bi: "buffer f = (b, i)" by (cases "buffer f")
  from assms bi have len: "length (array b f) = sizeof b" and lt: "Suc (length t) < sizeof b"
    and i: "i = length t" and av: "buffer_avail f = sizeof b - length t"
    and tk: "take i (array b f) = t"
    by (auto simp: tracks_def split: if_splits)
  show "tracks (put_incr ch (f\<lparr>buffer_avail := buffer_avail f - 1\<rparr>)) (t @ [ch])"
    using bi len i lt av tk
    by (simp add: tracks_def put_incr_def put_def array_simps take_Suc_conv_app_nth)
  show "same_rest f (put_incr ch (f\<lparr>buffer_avail := buffer_avail f - 1\<rparr>))"
    using bi i lt
    by (simp add: same_rest_def put_incr_def put_def array_simps)
qed

lemma append_tracks:
  "tracks f t \<Longrightarrow> tracks (append n ch f) (t @ replicate n ch) \<and> same_rest f (append n ch f)"
proof (induction n arbitrary: f t)
  case 0
  then show ?case by (simp add: same_rest_refl)
next
  case (Suc n)
  let ?g = "if buffer_avail f = 0 then f
        else if buffer_avail f - 1 = 0 then put_incr NUL (f\<lparr>buffer_avail := buffer_avail f - 1\<rparr>)
        else put_incr ch (f\<lparr>buffer_avail := buffer_avail f - 1\<rparr>)"
  have g: "tracks ?g (t @ [ch]) \<and> same_rest f ?g"
  proof (cases "buffer_avail f = 0")
    case True
    with Suc.prems show ?thesis by (simp add: tracks_full same_rest_refl)
  next
    case False
    show ?thesis
    proof (cases "buffer_avail f = Suc 0")
      case True
      with append1_last [OF Suc.prems True] show ?thesis by simp
    next
      case False
      with \<open>buffer_avail f \<noteq> 0\<close> have "Suc 0 < buffer_avail f" by simp
      with append1_room [OF Suc.prems this] show ?thesis by simp
    qed
  qed
  from Suc.IH [of ?g "t @ [ch]"] g
  have "tracks (append n ch ?g) ((t @ [ch]) @ replicate n ch) \<and> same_rest ?g (append n ch ?g)"
    by blast
  with g show ?case
    by (auto simp del: append.simps simp add: append.simps(2) [of n ch f] replicate_app_Cons_same
        intro: same_rest_trans)
qed

subsection \<open>runs of bytes inside one field\<close>

lemma isprint_SEPARATOR: "isprint SEPARATOR"
  by (simp add: isprint_def SEPARATOR_def)

lemma not_isprint_NUL: "\<not> isprint NUL"
  by (simp add: isprint_def NUL_def)

lemma sanitize_char_SEPARATOR: "sanitize_char SEPARATOR = [SEPARATOR]"
  by (simp add: sanitize_char_def isprint_SEPARATOR)

lemma NUL_notin_sanitize_char: "NUL \<notin> set (sanitize_char c)"
  using not_isprint_NUL
  by (auto simp: sanitize_char_def TAB_REPL_def NONPRINT_REPL_def NUL_def)

lemma NUL_notin_sanitize: "NUL \<notin> set (sanitize cs)"
  by (simp add: sanitize_def NUL_notin_sanitize_char)

lemma sanitize_simps:
  "sanitize [] = []" "sanitize (c # cs) = sanitize_char c @ sanitize cs"
  "sanitize (xs @ ys) = sanitize xs @ sanitize ys"
  by (simp_all add: sanitize_def)

lemma sanitize_printable: "list_all isprint cs \<Longrightarrow> sanitize cs = cs"
  by (induction cs) (simp_all add: sanitize_simps sanitize_char_def)

lemma feed_append: "feed (xs @ ys) f = feed ys (feed xs f)"
  by (induction xs arbitrary: f) simp_all

lemma body_plain:
  assumes "c \<noteq> newline" and "c \<noteq> SEPARATOR \<or> 2 \<le> state f"
  shows "\<exists>n ch. body c f = Continue (append n ch f) \<and> sanitize_char c = replicate n ch"
proof (cases "c = SEPARATOR")
  case True
  with assms have "body c f = Continue (append 1 c f)"
    by (auto simp: body_def)
  moreover from True have "sanitize_char c = replicate 1 c"
    by (simp add: sanitize_char_SEPARATOR)
  ultimately show ?thesis by blast
next
  case False
  show ?thesis
  proof (cases "isprint c")
    case True
    with False assms have "body c f = Continue (append 1 c f)"
      by (simp add: body_def)
    moreover from True have "sanitize_char c = replicate 1 c"
      by (simp add: sanitize_char_def)
    ultimately show ?thesis by blast
  next
    case np: False
    show ?thesis
    proof (cases "c = tab")
      case True
      with False np assms have "body c f = Continue (append TAB_STOP TAB_REPL f)"
        by (simp add: body_def)
      moreover from True np have "sanitize_char c = replicate TAB_STOP TAB_REPL"
        by (simp add: sanitize_char_def)
      ultimately show ?thesis by blast
    next
      case nt: False
      with False np assms have "body c f = Continue (append 1 NONPRINT_REPL f)"
        by (simp add: body_def)
      moreover from nt np have "sanitize_char c = replicate 1 NONPRINT_REPL"
        by (simp add: sanitize_char_def)
      ultimately show ?thesis by blast
    qed
  qed
qed

lemma feed_plain:
  assumes "tracks f t" and "newline \<notin> set cs" and "SEPARATOR \<notin> set cs \<or> 2 \<le> state f"
  shows "tracks (feed cs f) (t @ sanitize cs) \<and> same_rest f (feed cs f)"
  using assms
proof (induction cs arbitrary: f t)
  case Nil
  then show ?case by (simp add: sanitize_simps same_rest_refl)
next
  case (Cons c cs)
  from Cons.prems have "c \<noteq> newline" and "c \<noteq> SEPARATOR \<or> 2 \<le> state f"
    by auto
  then obtain n ch where b: "body c f = Continue (append n ch f)"
    and s: "sanitize_char c = replicate n ch"
    using body_plain by blast
  let ?g = "append n ch f"
  from append_tracks [OF Cons.prems(1), of n ch]
  have g: "tracks ?g (t @ replicate n ch)" and r: "same_rest f ?g"
    by simp_all
  from r have "state ?g = state f"
    by (simp add: same_rest_def)
  with Cons.prems have "SEPARATOR \<notin> set cs \<or> 2 \<le> state ?g" and "newline \<notin> set cs"
    by auto
  from Cons.IH [OF g this(2) this(1)]
  have "tracks (feed cs ?g) ((t @ replicate n ch) @ sanitize cs)" and "same_rest ?g (feed cs ?g)"
    by simp_all
  with b s r show ?case
    by (auto simp: sanitize_simps intro: same_rest_trans)
qed

subsection \<open>the terminator\<close>

lemma c_string_terminated: "NUL \<notin> set t \<Longrightarrow> c_string (t @ NUL # xs) = Some t"
  by (auto simp: c_string_def takeWhile_tail)

lemma put_NUL_tracks:
  assumes "tracks f t" and "NUL \<notin> set t" and "fst (buffer f) = b"
  shows "c_string (array b (put NUL f)) = Some (take (sizeof b - 1) t)"
    and "oob (put NUL f) = oob f @ (if length t < sizeof b then [] else [(b, sizeof b)])"
    and "b' \<noteq> b \<Longrightarrow> array b' (put NUL f) = array b' f"
proof -
  obtain i where bi: "buffer f = (b, i)"
    using assms(3) by (cases "buffer f") simp
  show "b' \<noteq> b \<Longrightarrow> array b' (put NUL f) = array b' f"
    using bi by (simp add: put_def array_simps)
  show "oob (put NUL f) = oob f @ (if length t < sizeof b then [] else [(b, sizeof b)])"
    using bi assms(1) by (auto simp: put_def array_simps tracks_def split: if_splits)
  show "c_string (array b (put NUL f)) = Some (take (sizeof b - 1) t)"
  proof (cases "length t < sizeof b")
    case True
    with assms(1) bi have i: "i = length t" and len: "length (array b f) = sizeof b"
      and tk: "take i (array b f) = t"
      by (auto simp: tracks_def)
    from True i len have "(array b f)[i := NUL] = t @ NUL # drop (Suc i) (array b f)"
      using tk by (simp add: upd_conv_take_nth_drop)
    with True i bi assms(2) show ?thesis
      by (simp add: put_def array_simps c_string_terminated)
  next
    case False
    with assms(1) bi have "i = sizeof b" and "array b f = take (sizeof b - 1) t @ [NUL]"
      by (auto simp: tracks_def)
    moreover from assms(2) have "NUL \<notin> set (take (sizeof b - 1) t)"
      by (auto dest: in_set_takeD)
    ultimately show ?thesis
      using bi by (auto simp: put_def array_simps c_string_terminated)
  qed
qed

lemma switch_buffer_tracks:
  assumes "tracks f t" and "NUL \<notin> set t" and "fst (buffer f) = b" and "b' \<noteq> b"
    and "length (array b' f) = sizeof b'"
  shows "tracks (switch_buffer b' f) []"
    and "c_string (array b (switch_buffer b' f)) = Some (take (sizeof b - 1) t)"
    and "oob (switch_buffer b' f) = oob f @ (if length t < sizeof b then [] else [(b, sizeof b)])"
    and "b'' \<noteq> b \<Longrightarrow> b'' \<noteq> b' \<Longrightarrow> array b'' (switch_buffer b' f) = array b'' f"
proof -
  let ?f1 = "put NUL f"
  let ?f2 = "?f1\<lparr>buffer := (b', 0), buffer_avail := sizeof b'\<rparr>"
  have sw: "switch_buffer b' f = (put NUL ?f2)\<lparr>state := Suc (state (put NUL ?f2))\<rparr>"
    by (simp add: switch_buffer_def Let_def)
  have p2: "put NUL ?f2 = array_update b' ((array b' ?f1)[0 := NUL]) ?f2"
    using sizeof_pos [of b'] by (simp add: put_def array_simps)
  note t = put_NUL_tracks [OF assms(1,2,3)]
  show "tracks (switch_buffer b' f) []"
    using sizeof_pos [of b'] assms(5) t(3) [OF assms(4)]
    by (simp add: sw p2 tracks_def array_simps)
  show "c_string (array b (switch_buffer b' f)) = Some (take (sizeof b - 1) t)"
    using t(1) assms(4) by (simp add: sw p2 array_simps)
  show "oob (switch_buffer b' f) = oob f @ (if length t < sizeof b then [] else [(b, sizeof b)])"
    using t(2) by (simp add: sw p2 array_simps)
  show "b'' \<noteq> b \<Longrightarrow> b'' \<noteq> b' \<Longrightarrow> array b'' (switch_buffer b' f) = array b'' f"
    using t(3) [of b''] by (simp add: sw p2 array_simps)
qed

lemma tracks_enter: "length (filepath m) = MATCH_PATH_LEN \<Longrightarrow> tracks (enter junk m) []"
  by (simp add: tracks_def enter_def MATCH_PATH_LEN_def)

subsection \<open>a line of three fields\<close>

lemma feed_SEPARATOR:
  "feed (SEPARATOR # cs) f =
     feed cs (if state f = 0 then switch_buffer Line_num_buf f
              else if state f = 1 then switch_buffer Description f
              else append 1 SEPARATOR f)"
  by (simp add: body_def del: append.simps(2))

lemma feed_three_fields:
  assumes m: "length (filepath m) = MATCH_PATH_LEN" "length (description m) = MATCH_DESCRIPTION_LEN"
    and j: "length junk = LINE_NUM_BUF_LEN"
    and p: "SEPARATOR \<notin> set p" "newline \<notin> set p"
    and n: "SEPARATOR \<notin> set n" "newline \<notin> set n"
    and d: "newline \<notin> set d"
  defines "f \<equiv> feed (p @ SEPARATOR # n @ SEPARATOR # d) (enter junk m)"
  shows "state f = 2" and "fst (buffer f) = Description" and "tracks f (sanitize d)"
    and "c_string (filepath f) = Some (take (MATCH_PATH_LEN - 1) (sanitize p))"
    and "c_string (line_num_buf f) = Some (take (LINE_NUM_BUF_LEN - 1) (sanitize n))"
    and "oob f = overflow Filepath (sanitize p) @ overflow Line_num_buf (sanitize n)"
proof -
  let ?f0 = "enter junk m"
  let ?f1 = "feed p ?f0"
  let ?f2 = "switch_buffer Line_num_buf ?f1"
  let ?f3 = "feed n ?f2"
  let ?f4 = "switch_buffer Description ?f3"
  have f0: "tracks ?f0 []" "state ?f0 = 0" "fst (buffer ?f0) = Filepath" "oob ?f0 = []"
    "line ?f0 = line m" "line_num_buf ?f0 = junk" "description ?f0 = description m"
    using m by (simp_all add: tracks_enter) (simp_all add: enter_def)
  from feed_plain [OF f0(1) p(2)] p(1)
  have t1: "tracks ?f1 (sanitize p)" and r1: "same_rest ?f0 ?f1"
    by simp_all
  from r1 f0 have f1: "state ?f1 = 0" "fst (buffer ?f1) = Filepath" "oob ?f1 = []"
    "line ?f1 = line m" "array Line_num_buf ?f1 = junk" "array Description ?f1 = description m"
    by (auto simp: same_rest_def)
  note s2 = switch_buffer_tracks [OF t1 NUL_notin_sanitize f1(2), of Line_num_buf]
  have t2: "tracks ?f2 []" and c2: "c_string (array Filepath ?f2) = Some (take (sizeof Filepath - 1) (sanitize p))"
    and o2: "oob ?f2 = overflow Filepath (sanitize p)"
    and d2: "array Description ?f2 = description m"
    using s2(1,2,3) s2(4) [of Description] f1 j by (simp_all add: overflow_def)
  have f2: "state ?f2 = 1" "fst (buffer ?f2) = Line_num_buf"
    using f1 by (simp_all add: switch_buffer_fields)
  from feed_plain [OF t2 n(2)] n(1)
  have t3: "tracks ?f3 (sanitize n)" and r3: "same_rest ?f2 ?f3"
    by simp_all
  from r3 f2 c2 o2 d2 have f3: "state ?f3 = 1" "fst (buffer ?f3) = Line_num_buf"
    "oob ?f3 = overflow Filepath (sanitize p)"
    "c_string (array Filepath ?f3) = Some (take (sizeof Filepath - 1) (sanitize p))"
    "array Description ?f3 = description m"
    by (auto simp: same_rest_def)
  note s4 = switch_buffer_tracks [OF t3 NUL_notin_sanitize f3(2), of Description]
  have t4: "tracks ?f4 []"
    and c4: "c_string (array Line_num_buf ?f4) = Some (take (sizeof Line_num_buf - 1) (sanitize n))"
    and o4: "oob ?f4 = overflow Filepath (sanitize p) @ overflow Line_num_buf (sanitize n)"
    and p4: "c_string (array Filepath ?f4) = Some (take (sizeof Filepath - 1) (sanitize p))"
    using s4(1,2,3) s4(4) [of Filepath] f3 m by (simp_all add: overflow_def)
  have f4: "state ?f4 = 2" "fst (buffer ?f4) = Description"
    using f3 by (simp_all add: switch_buffer_fields)
  have f: "f = feed d ?f4"
    using f1(1) f3(1) by (simp add: f_def feed_append feed_SEPARATOR del: feed.simps(2))
  from feed_plain [OF t4 d] f4(1)
  have t5: "tracks (feed d ?f4) (sanitize d)" and r5: "same_rest ?f4 (feed d ?f4)"
    by simp_all
  from t5 show "tracks f (sanitize d)"
    by (simp add: f)
  from r5 f4 show "state f = 2" and "fst (buffer f) = Description"
    by (simp_all add: f same_rest_def)
  from r5 f4 p4 have "c_string (array Filepath f) = Some (take (sizeof Filepath - 1) (sanitize p))"
    by (auto simp: f same_rest_def)
  then show "c_string (filepath f) = Some (take (MATCH_PATH_LEN - 1) (sanitize p))"
    by simp
  from r5 f4 c4 have "c_string (array Line_num_buf f) = Some (take (sizeof Line_num_buf - 1) (sanitize n))"
    by (auto simp: f same_rest_def)
  then show "c_string (line_num_buf f) = Some (take (LINE_NUM_BUF_LEN - 1) (sanitize n))"
    by simp
  from r5 o4 show "oob f = overflow Filepath (sanitize p) @ overflow Line_num_buf (sanitize n)"
    by (simp add: f same_rest_def)
qed

text \<open>The frame at the return, for a line of three fields that ends in a newline.\<close>

lemma parse_line:
  assumes m: "length (filepath m) = MATCH_PATH_LEN" "length (description m) = MATCH_DESCRIPTION_LEN"
    and j: "length junk = LINE_NUM_BUF_LEN"
    and p: "SEPARATOR \<notin> set p" "newline \<notin> set p"
    and n: "SEPARATOR \<notin> set n" "newline \<notin> set n"
    and d: "newline \<notin> set d"
  shows "\<exists>f. parse_next_match junk (p @ SEPARATOR # n @ SEPARATOR # d @ newline # fp) m = (0, fp, f)
    \<and> c_string (filepath f) = Some (take (MATCH_PATH_LEN - 1) (sanitize p))
    \<and> c_string (line_num_buf f) = Some (take (LINE_NUM_BUF_LEN - 1) (sanitize n))
    \<and> line f = Some (atoi (take (LINE_NUM_BUF_LEN - 1) (sanitize n)))
    \<and> c_string (description f) = Some (take (MATCH_DESCRIPTION_LEN - 1) (sanitize d))
    \<and> oob f = overflow Filepath (sanitize p) @ overflow Line_num_buf (sanitize n)
               @ overflow Description (sanitize d)"
proof -
  let ?cs = "p @ SEPARATOR # n @ SEPARATOR # d"
  let ?f = "feed ?cs (enter junk m)"
  let ?g = "put NUL ?f"
  have nl: "newline \<notin> set ?cs"
    using p n d by (simp add: SEPARATOR_def newline_def)
  note ff = feed_three_fields [OF m j p n d]
  note t = put_NUL_tracks [OF ff(3) NUL_notin_sanitize ff(2)]
  have loop: "for_loop (?cs @ newline # fp) (enter junk m) = (Some newline, fp, ?g)"
    using nl by (rule for_loop_line)
  have g: "state ?g = 2" "c_string (line_num_buf ?g) = Some (take (LINE_NUM_BUF_LEN - 1) (sanitize n))"
    "c_string (filepath ?g) = Some (take (MATCH_PATH_LEN - 1) (sanitize p))"
    "c_string (description ?g) = Some (take (MATCH_DESCRIPTION_LEN - 1) (sanitize d))"
    "oob ?g = overflow Filepath (sanitize p) @ overflow Line_num_buf (sanitize n)
               @ overflow Description (sanitize d)"
    using ff t(1) t(2) t(3) [of Filepath] t(3) [of Line_num_buf]
    by (simp_all add: put_fields overflow_def)
  let ?r = "?g\<lparr>line := Some (atoi (take (LINE_NUM_BUF_LEN - 1) (sanitize n)))\<rparr>"
  have "parse_next_match junk (?cs @ newline # fp) m = (0, fp, ?r)"
    using loop g(1,2) by (simp add: parse_next_match_def)
  moreover have "?cs @ newline # fp = p @ SEPARATOR # n @ SEPARATOR # d @ newline # fp"
    by simp
  ultimately have "parse_next_match junk (p @ SEPARATOR # n @ SEPARATOR # d @ newline # fp) m = (0, fp, ?r)"
    by simp
  with g show ?thesis
    by simp
qed

section \<open>One call on one line\<close>

lemma parse_complete_line:
  assumes "newline \<notin> set l"
  shows "parse_next_match junk (l @ newline # fp) m =
    (let f = put NUL (feed l (enter junk m)) in
     if 2 \<le> count_list l SEPARATOR
     then (0, fp, f\<lparr>line := map_option atoi (c_string (line_num_buf f))\<rparr>)
     else (1, fp, f))"
  using assms
  by (simp add: parse_next_match_def for_loop_line Let_def put_fields state_feed enter_def)

lemma parse_unterminated:
  assumes "newline \<notin> set l"
  shows "parse_next_match junk l m =
    (let f = feed l (enter junk m) in
     if 2 \<le> count_list l SEPARATOR
     then (EOF, [], f\<lparr>line := map_option atoi (c_string (line_num_buf f))\<rparr>)
     else (EOF, [], f))"
  using assms
  by (simp add: parse_next_match_def for_loop_eof Let_def state_feed enter_def)

section \<open>The loop of build_menu\<close>

lemma resize_matchv_idle: "matchc g \<noteq> matcha g \<Longrightarrow> resize_matchv e g = Inr g"
  by (simp add: resize_matchv_def)

lemma parse_loop_malformed:
  assumes "newline \<notin> set l" and "count_list l SEPARATOR < 2"
    and "matchc g < matcha g" and "length (matchv g) = matcha g"
  shows "parse_loop e (l @ newline # fp) g =
    parse_loop e fp (g\<lparr>matchv := (matchv g)[matchc g :=
       slot_of (put NUL (feed l (enter (stack_junk e) (matchv g ! matchc g))))]\<rparr>)"
  using assms
  by (subst parse_loop.simps) (simp add: parse_complete_line Let_def resize_matchv_idle EOF_def)

lemma init_matchv_env0: "init_matchv (env0 w) = Inr store0"
  by (simp add: init_matchv_def resize_matchv_def env0_def store0_def)

lemma store_inv_init: "init_matchv e = Inr g \<Longrightarrow> store_inv g"
  by (auto simp: init_matchv_def resize_matchv_def store_inv_def MATCH_CHUNK_LEN_def
      split: if_splits)

lemma resize_matchv_grows:
  "resize_matchv e g = Inr g' \<Longrightarrow>
     matchc g' = matchc g \<and>
     matcha g' = (if matchc g = matcha g then matcha g + MATCH_CHUNK_LEN else matcha g) \<and>
     length (matchv g') =
       (if matchc g = matcha g then length (matchv g) + MATCH_CHUNK_LEN else length (matchv g))"
  by (auto simp: resize_matchv_def split: if_splits)

lemma store_inv_step:
  assumes "store_inv g"
    and "resize_matchv e (g\<lparr>matchv := xs, matchc := matchc g + (if rc = (0::int) then 1 else 0)\<rparr>) = Inr g'"
    and "length xs = length (matchv g)"
  shows "store_inv g'"
proof -
  let ?h = "g\<lparr>matchv := xs, matchc := matchc g + (if rc = 0 then 1 else 0)\<rparr>"
  note r = resize_matchv_grows [OF assms(2)]
  from assms(1) have a: "matchc g < matcha g" "length (matchv g) = matcha g"
    "matcha g = 32 * (matchc g div 32 + 1)"
    by (simp_all add: store_inv_def MATCH_CHUNK_LEN_def)
  show ?thesis
  proof (cases "rc = 0")
    case False
    with r a assms(3) show ?thesis
      by (simp add: store_inv_def MATCH_CHUNK_LEN_def)
  next
    case True
    show ?thesis
    proof (cases "Suc (matchc g) = matcha g")
      case full: True
      with a(3) have "Suc (matchc g) = 32 * (matchc g div 32 + 1)"
        by simp
      then have "Suc (matchc g) div 32 = (32 * (matchc g div 32 + 1)) div 32"
        by (rule arg_cong)
      then have "Suc (matchc g) div 32 = matchc g div 32 + 1"
        by simp
      with True full r a assms(3) show ?thesis
        by (simp add: store_inv_def MATCH_CHUNK_LEN_def)
    next
      case room: False
      have "32 * (matchc g div 32) \<le> Suc (matchc g)"
        by (rule order_trans [OF times_div_less_eq_dividend]) simp
      moreover from room a have "Suc (matchc g) < 32 * Suc (matchc g div 32)"
        by simp
      ultimately have "Suc (matchc g) div 32 = matchc g div 32"
        by (rule div_nat_eqI)
      with True room r a assms(3) show ?thesis
        by (simp add: store_inv_def MATCH_CHUNK_LEN_def)
    qed
  qed
qed

lemma store_inv_parse_loop:
  "store_inv g \<Longrightarrow> parse_loop e fp g = Inr g' \<Longrightarrow> store_inv g'"
proof (induction e fp g rule: parse_loop.induct)
  case (1 e fp g)
  obtain rc fp' f where p: "parse_next_match (stack_junk e) fp (matchv g ! matchc g) = (rc, fp', f)"
    by (cases "parse_next_match (stack_junk e) fp (matchv g ! matchc g)")
  from "1.prems"(1) have lt: "matchc g < length (matchv g)"
    by (simp add: store_inv_def)
  let ?xs = "(matchv g)[matchc g := slot_of f]"
  show ?case
  proof (cases "rc = EOF")
    case True
    with "1.prems" p lt show ?thesis
      by (auto simp: parse_loop.simps [of e fp g] store_inv_def)
  next
    case False
    let ?h = "g\<lparr>matchv := ?xs, matchc := matchc g + (if rc = 0 then 1 else 0)\<rparr>"
    from "1.prems"(2) p lt False obtain g2 where r: "resize_matchv e ?h = Inr g2"
      and l: "parse_loop e fp' g2 = Inr g'"
      by (auto simp: parse_loop.simps [of e fp g] split: sum.splits)
    from store_inv_step [OF "1.prems"(1) r] have "store_inv g2"
      by simp
    from "1.IH" [OF lt p [symmetric] refl False r this l] show ?thesis .
  qed
qed

lemma parse_loop_in_range:
  "store_inv g \<Longrightarrow> parse_loop e fp g \<noteq> Inl Slot_out_of_range"
proof (induction e fp g rule: parse_loop.induct)
  case (1 e fp g)
  obtain rc fp' f where p: "parse_next_match (stack_junk e) fp (matchv g ! matchc g) = (rc, fp', f)"
    by (cases "parse_next_match (stack_junk e) fp (matchv g ! matchc g)")
  from "1.prems" have lt: "matchc g < length (matchv g)"
    by (simp add: store_inv_def)
  let ?h = "g\<lparr>matchv := (matchv g)[matchc g := slot_of f],
               matchc := matchc g + (if rc = 0 then 1 else 0)\<rparr>"
  show ?case
  proof (cases "rc = EOF")
    case True
    with p lt show ?thesis
      by (simp add: parse_loop.simps [of e fp g])
  next
    case False
    show ?thesis
    proof (cases "resize_matchv e ?h")
      case (Inl err)
      then have "err = Out_of_memory"
        by (simp add: resize_matchv_def split: if_splits)
      with Inl p lt False show ?thesis
        by (simp add: parse_loop.simps [of e fp g])
    next
      case (Inr g2)
      from store_inv_step [OF "1.prems" Inr] have "store_inv g2"
        by simp
      from "1.IH" [OF lt p [symmetric] refl False Inr this] Inr p lt False show ?thesis
        by (simp add: parse_loop.simps [of e fp g])
    qed
  qed
qed

lemma parse_loop_unterminated:
  assumes "newline \<notin> set l" and "matchc g < length (matchv g)"
  shows "\<exists>g'. parse_loop e l g = Inr g' \<and> matchc g' = matchc g \<and> matcha g' = matcha g
    \<and> records g' = records g"
  using assms
  by (subst parse_loop.simps) (simp add: parse_unterminated Let_def records_def)

lemma complete_split:
  assumes "pre \<noteq> []" and "last pre = newline"
  shows "\<exists>l1 pre'. pre = l1 @ newline # pre' \<and> newline \<notin> set l1 \<and> (pre' = [] \<or> last pre' = newline)"
proof -
  from assms have "newline \<in> set pre"
    using last_in_set by fastforce
  then obtain l1 pre' where s: "pre = l1 @ newline # pre'" and n: "newline \<notin> set l1"
    by (auto dest: split_list_first)
  from s assms(2) have "pre' = [] \<or> last pre' = newline"
    by (auto split: if_splits)
  with s n show ?thesis by blast
qed

lemma parse_loop_complete_prefix:
  assumes "newline \<notin> set l"
  shows "pre = [] \<or> last pre = newline \<Longrightarrow>
    map_sum id records (parse_loop e (pre @ l) g) = map_sum id records (parse_loop e pre g)"
proof (induction e pre g rule: parse_loop.induct)
  case (1 e pre g)
  show ?case
  proof (cases "matchc g < length (matchv g)")
    case False
    then show ?thesis
      by (simp add: parse_loop.simps [of e _ g])
  next
    case lt: True
    show ?thesis
    proof (cases "pre = []")
      case True
      from parse_loop_unterminated [OF assms lt, of e]
      obtain g' where "parse_loop e l g = Inr g'" and "records g' = records g"
        by blast
      with True lt show ?thesis
        by (simp add: parse_loop_Nil)
    next
      case False
      with "1.prems" obtain l1 pre' where s: "pre = l1 @ newline # pre'"
        and n: "newline \<notin> set l1" and c: "pre' = [] \<or> last pre' = newline"
        using complete_split by blast
      let ?m = "matchv g ! matchc g"
      have "\<exists>rc f. parse_next_match (stack_junk e) pre ?m = (rc, pre', f)
          \<and> parse_next_match (stack_junk e) (pre @ l) ?m = (rc, pre' @ l, f) \<and> rc \<noteq> EOF"
        using n by (cases "2 \<le> count_list l1 SEPARATOR")
          (simp_all add: s parse_complete_line Let_def EOF_def)
      then obtain rc f where p: "parse_next_match (stack_junk e) pre ?m = (rc, pre', f)"
        and q: "parse_next_match (stack_junk e) (pre @ l) ?m = (rc, pre' @ l, f)"
        and rc: "rc \<noteq> EOF"
        by blast
      let ?h = "g\<lparr>matchv := (matchv g)[matchc g := slot_of f],
                   matchc := matchc g + (if rc = 0 then 1 else 0)\<rparr>"
      show ?thesis
      proof (cases "resize_matchv e ?h")
        case (Inl err)
        with lt p q rc show ?thesis
          by (simp add: parse_loop.simps [of e pre g] parse_loop.simps [of e "pre @ l" g])
      next
        case (Inr g2)
        from "1.IH" [OF lt p [symmetric] refl rc Inr c]
        have "map_sum id records (parse_loop e (pre' @ l) g2) = map_sum id records (parse_loop e pre' g2)" .
        with lt p q rc Inr show ?thesis
          by (simp add: parse_loop.simps [of e pre g] parse_loop.simps [of e "pre @ l" g] id_def)
      qed
    qed
  qed
qed

lemma parse_loop_one_malformed_line:
  assumes "newline \<notin> set l" and "count_list l SEPARATOR < 2"
  shows "\<exists>g. parse_loop (env0 w) (l @ [newline]) store0 = Inr g \<and> matchc g = 0"
proof -
  have s: "matchc store0 < matcha store0" "length (matchv store0) = matcha store0"
    by (simp_all add: store0_def MATCH_CHUNK_LEN_def)
  let ?g = "store0\<lparr>matchv := (matchv store0)[matchc store0 :=
       slot_of (put NUL (feed l (enter (stack_junk (env0 w)) (matchv store0 ! matchc store0))))]\<rparr>"
  from parse_loop_malformed [OF assms s, of "env0 w" "[]"]
  have "parse_loop (env0 w) (l @ [newline]) store0 = parse_loop (env0 w) [] ?g" .
  moreover have "parse_loop (env0 w) [] ?g = Inr ?g"
    by (rule parse_loop_Nil) (simp add: store0_def MATCH_CHUNK_LEN_def)
  moreover have "matchc ?g = 0"
    by (simp add: store0_def)
  ultimately show ?thesis
    by simp
qed

lemma parse_loop_line:
  assumes "newline \<notin> set l" and "matchc g < length (matchv g)"
  shows "parse_loop e (l @ newline # fp) g =
    (case resize_matchv e
        (g\<lparr>matchv := (matchv g)[matchc g :=
              slot_of (snd (snd (parse_next_match (stack_junk e) (l @ newline # fp) (matchv g ! matchc g))))],
           matchc := matchc g + (if 2 \<le> count_list l SEPARATOR then 1 else 0)\<rparr>) of
       Inl err \<Rightarrow> Inl err
     | Inr g' \<Rightarrow> parse_loop e fp g')"
  using assms
  by (subst parse_loop.simps) (simp add: parse_complete_line Let_def EOF_def)

lemma parse_loop_one_line:
  assumes "newline \<notin> set l" and "2 \<le> count_list l SEPARATOR"
  shows "\<exists>g. parse_loop (env0 w) (l @ [newline]) store0 = Inr g \<and> matchc g = 1
    \<and> matcha g = MATCH_CHUNK_LEN"
proof -
  have "matchc store0 < length (matchv store0)"
    by (simp add: store0_def MATCH_CHUNK_LEN_def)
  from parse_loop_line [OF assms(1) this, of "env0 w" "[]"] assms(2)
  show ?thesis
    by (simp add: resize_matchv_idle parse_loop_Nil)
      (simp add: store0_def MATCH_CHUNK_LEN_def resize_matchv_idle parse_loop_Nil)
qed

section \<open>How many records the loop stores\<close>

lemma matches_from_line:
  "newline \<notin> set l \<Longrightarrow>
     matches_from k (l @ newline # fp) =
       (if 2 \<le> k + count_list l SEPARATOR then 1 else 0) + matches_from 0 fp"
  by (induction l arbitrary: k) (auto simp: SEPARATOR_def newline_def)

lemma matches_from_unterminated: "newline \<notin> set l \<Longrightarrow> matches_from k l = 0"
  by (induction l arbitrary: k) auto

lemma matches_in_line:
  "newline \<notin> set l \<Longrightarrow>
     matches_in (l @ newline # fp) = (if 2 \<le> count_list l SEPARATOR then 1 else 0) + matches_in fp"
  by (simp add: matches_in_def matches_from_line)

lemma matches_in_lines:
  assumes "newline \<notin> set l" and "2 \<le> count_list l SEPARATOR"
  shows "matches_in (concat (replicate k (l @ [newline]))) = k"
proof (induction k)
  case 0
  show ?case by (simp add: matches_in_def)
next
  case (Suc k)
  from matches_in_line [OF assms(1), of "concat (replicate k (l @ [newline]))"] assms(2) Suc
  show ?case by simp
qed

lemma resize_matchv_error: "resize_matchv e g = Inl err \<Longrightarrow> err = Out_of_memory \<and> \<not> (\<forall>n. realloc_ok e n)"
  by (auto simp: resize_matchv_def split: if_splits)

lemma parse_loop_result:
  assumes "store_inv g"
  shows "(parse_loop e fp g = Inl Out_of_memory \<and> \<not> (\<forall>n. realloc_ok e n))
    \<or> (\<exists>g'. parse_loop e fp g = Inr g' \<and> matchc g' = matchc g + matches_in fp)"
  using assms
proof (induction fp arbitrary: g rule: length_induct)
  case (1 fp)
  from "1.prems" have lt: "matchc g < length (matchv g)"
    by (simp add: store_inv_def)
  show ?case
  proof (cases "newline \<in> set fp")
    case False
    from parse_loop_unterminated [OF False lt, of e] False show ?thesis
      by (auto simp: matches_in_def matches_from_unterminated)
  next
    case True
    then obtain l rest where fp: "fp = l @ newline # rest" and nl: "newline \<notin> set l"
      by (auto dest: split_list_first)
    let ?k = "if 2 \<le> count_list l SEPARATOR then 1 else 0 :: nat"
    let ?xs = "(matchv g)[matchc g :=
        slot_of (snd (snd (parse_next_match (stack_junk e) (l @ newline # rest) (matchv g ! matchc g))))]"
    let ?h = "g\<lparr>matchv := ?xs, matchc := matchc g + ?k\<rparr>"
    note step = parse_loop_line [OF nl lt, of e rest]
    show ?thesis
    proof (cases "resize_matchv e ?h")
      case (Inl err)
      with resize_matchv_error [OF Inl] step show ?thesis
        by (simp add: fp)
    next
      case (Inr g2)
      have "store_inv g2"
      proof (cases "2 \<le> count_list l SEPARATOR")
        case True
        with Inr have "resize_matchv e (g\<lparr>matchv := ?xs, matchc := matchc g + (if (0::int) = 0 then 1 else 0)\<rparr>) = Inr g2"
          by simp
        from store_inv_step [OF "1.prems" this] show ?thesis
          by simp
      next
        case False
        with Inr have "resize_matchv e (g\<lparr>matchv := ?xs, matchc := matchc g + (if (1::int) = 0 then 1 else 0)\<rparr>) = Inr g2"
          by simp
        from store_inv_step [OF "1.prems" this] show ?thesis
          by simp
      qed
      moreover have "length rest < length fp"
        by (simp add: fp)
      ultimately have "(parse_loop e rest g2 = Inl Out_of_memory \<and> \<not> (\<forall>n. realloc_ok e n))
          \<or> (\<exists>g'. parse_loop e rest g2 = Inr g' \<and> matchc g' = matchc g2 + matches_in rest)"
        using "1.IH" by blast
      moreover from resize_matchv_grows [OF Inr] have "matchc g2 = matchc g + ?k"
        by simp
      moreover from step Inr have "parse_loop e fp g = parse_loop e rest g2"
        by (simp add: fp)
      ultimately show ?thesis
        by (auto simp: fp matches_in_line [OF nl])
    qed
  qed
qed

lemma parse_loop_count:
  "store_inv g \<Longrightarrow> parse_loop e fp g = Inr g' \<Longrightarrow> matchc g' = matchc g + matches_in fp"
  using parse_loop_result [of g e fp] by auto

lemma parse_loop_total:
  "store_inv g \<Longrightarrow> \<forall>n. realloc_ok e n \<Longrightarrow> \<exists>g'. parse_loop e fp g = Inr g'"
  using parse_loop_result [of g e fp] by auto

lemma parse_loop_keeps_records:
  "parse_loop e fp g = Inr g' \<Longrightarrow> take (matchc g) (matchv g') = take (matchc g) (matchv g)"
proof (induction e fp g rule: parse_loop.induct)
  case (1 e fp g)
  show ?case
  proof (cases "matchc g < length (matchv g)")
    case False
    with "1.prems" show ?thesis
      by (simp add: parse_loop.simps [of e fp g])
  next
    case lt: True
    obtain rc fp' f where p: "parse_next_match (stack_junk e) fp (matchv g ! matchc g) = (rc, fp', f)"
      by (cases "parse_next_match (stack_junk e) fp (matchv g ! matchc g)")
    let ?xs = "(matchv g)[matchc g := slot_of f]"
    show ?thesis
    proof (cases "rc = EOF")
      case True
      with "1.prems" p lt show ?thesis
        by (auto simp: parse_loop.simps [of e fp g])
    next
      case False
      let ?h = "g\<lparr>matchv := ?xs, matchc := matchc g + (if rc = 0 then 1 else 0)\<rparr>"
      from "1.prems" p lt False obtain g2 where r: "resize_matchv e ?h = Inr g2"
        and l: "parse_loop e fp' g2 = Inr g'"
        by (auto simp: parse_loop.simps [of e fp g] split: sum.splits)
      from "1.IH" [OF lt p [symmetric] refl False r l]
      have "take (matchc g2) (matchv g') = take (matchc g2) (matchv g2)" .
      then have "take (matchc g) (take (matchc g2) (matchv g')) = take (matchc g) (take (matchc g2) (matchv g2))"
        by simp
      moreover from resize_matchv_grows [OF r] have c: "matchc g \<le> matchc g2"
        by simp
      ultimately have "take (matchc g) (matchv g') = take (matchc g) (matchv g2)"
        by (simp add: min_absorb1)
      moreover from r have "take (matchc g) (matchv g2) = take (matchc g) ?xs"
        using lt by (auto simp: resize_matchv_def split: if_splits)
      ultimately show ?thesis
        by simp
    qed
  qed
qed

section \<open>Decimal digits and atoi\<close>

lemma of_char_digit_char: "k < 10 \<Longrightarrow> (of_char (digit_char k) :: nat) = 48 + k"
  by (simp add: digit_char_def)

lemma isdigit_digit_char: "k < 10 \<Longrightarrow> isdigit (digit_char k)"
  by (simp add: isdigit_def of_char_digit_char)

lemma isdigit_dec: "list_all isdigit (dec k)"
proof (induction k rule: dec.induct)
  case (1 k)
  then show ?case
    by (subst dec.simps) (simp add: isdigit_digit_char)
qed

lemma dec_not_Nil: "dec k \<noteq> []"
  by (subst dec.simps) simp

lemma digits_value_append:
  "list_all isdigit xs \<Longrightarrow> digits_value acc (xs @ ys) = digits_value (digits_value acc xs) ys"
  by (induction xs arbitrary: acc) simp_all

lemma digits_value_digit_char: "k < 10 \<Longrightarrow> digits_value acc [digit_char k] = acc * 10 + k"
  by (simp add: isdigit_digit_char of_char_digit_char)

lemma digits_value_dec: "digits_value 0 (dec k) = k"
proof (induction k rule: dec.induct)
  case (1 k)
  show ?case
  proof (cases "k < 10")
    case True
    then show ?thesis
      by (subst dec.simps) (simp add: isdigit_digit_char of_char_digit_char)
  next
    case False
    with 1 have "digits_value 0 (dec (k div 10)) = k div 10"
      by simp
    with False show ?thesis
      by (subst dec.simps)
        (simp add: digits_value_append isdigit_dec isdigit_digit_char of_char_digit_char)
  qed
qed

lemma length_dec: "k < 10 ^ j \<Longrightarrow> 0 < j \<Longrightarrow> length (dec k) \<le> j"
proof (induction j arbitrary: k)
  case 0
  then show ?case by simp
next
  case (Suc j)
  show ?case
  proof (cases "k < 10")
    case True
    then show ?thesis
      by (subst dec.simps) simp
  next
    case False
    with Suc.prems have "k div 10 < 10 ^ j" and "0 < j"
      by (auto simp: less_mult_imp_div_less mult.commute intro: Suc_lessI gr0I)
    from Suc.IH [OF this] False show ?thesis
      by (subst dec.simps) simp
  qed
qed

lemma isdigit_properties:
  assumes "isdigit c"
  shows "isprint c" "c \<noteq> SEPARATOR" "c \<noteq> newline" "\<not> isspace c" "c \<noteq> CHR ''-''" "c \<noteq> CHR ''+''"
  using assms
  by (auto simp: isdigit_def isprint_def isspace_def SEPARATOR_def newline_def)

lemma isprint_not_newline: "isprint c \<Longrightarrow> c \<noteq> newline"
  by (auto simp: isprint_def newline_def)

lemma atoi_fits: "INT_MIN \<le> spelled s \<Longrightarrow> spelled s \<le> INT_MAX \<Longrightarrow> atoi s = spelled s"
  by (simp add: atoi_def strtol_def int_of_long_def Let_def INT_MIN_def INT_MAX_def
      LONG_MIN_def LONG_MAX_def)

lemma spelled_dec: "spelled (dec k) = int k"
proof -
  obtain c cs where d: "dec k = c # cs"
    using dec_not_Nil [of k] by (cases "dec k") auto
  with isdigit_dec [of k] have c: "isdigit c"
    by simp
  have "dropWhile isspace (dec k) = dec k"
    using d isdigit_properties(4) [OF c] by simp
  moreover have "signed_value (dec k) = int (digits_value 0 (dec k))"
    using d isdigit_properties(5,6) [OF c] by (simp add: signed_value_def)
  ultimately show ?thesis
    by (simp add: spelled_def digits_value_dec)
qed

lemma atoi_dec: "int k \<le> INT_MAX \<Longrightarrow> atoi (dec k) = int k"
  using atoi_fits [of "dec k"] by (simp add: spelled_dec INT_MIN_def)

lemma length_dec_int: "int k \<le> INT_MAX \<Longrightarrow> length (dec k) \<le> 10"
  by (rule length_dec) (simp_all add: INT_MAX_def)

lemma printable_field:
  assumes "list_all (\<lambda>c. isprint c \<and> c \<noteq> SEPARATOR) s"
  shows "sanitize s = s" "SEPARATOR \<notin> set s" "newline \<notin> set s"
proof -
  from assms have "list_all isprint s"
    by (simp add: list_all_iff)
  then show "sanitize s = s"
    by (rule sanitize_printable)
  from assms show "SEPARATOR \<notin> set s" "newline \<notin> set s"
    by (auto simp: list_all_iff dest: isprint_not_newline)
qed

lemma digits_field:
  assumes "list_all isdigit s"
  shows "list_all (\<lambda>c. isprint c \<and> c \<noteq> SEPARATOR) s"
  using assms by (auto simp: list_all_iff dest: isdigit_properties)

lemma dec_10: "dec 10 = ''10''"
  by code_simp

lemma minus_notin_sanitize: "CHR ''-'' \<notin> set s \<Longrightarrow> CHR ''-'' \<notin> set (sanitize s)"
  by (induction s) (auto simp: sanitize_simps sanitize_char_def TAB_REPL_def NONPRINT_REPL_def)

lemma signed_value_nonneg: "CHR ''-'' \<notin> set t \<Longrightarrow> 0 \<le> signed_value t"
  by (cases t) (auto simp: signed_value_def)

lemma spelled_nonneg: "CHR ''-'' \<notin> set s \<Longrightarrow> 0 \<le> spelled s"
proof -
  assume "CHR ''-'' \<notin> set s"
  then have "CHR ''-'' \<notin> set (dropWhile isspace s)"
    by (auto dest: set_dropWhileD)
  then show ?thesis
    unfolding spelled_def by (rule signed_value_nonneg)
qed

lemma spelled_field_nonneg:
  "CHR ''-'' \<notin> set n \<Longrightarrow> 0 \<le> spelled (take k (sanitize n))"
  by (rule spelled_nonneg) (auto dest: in_set_takeD minus_notin_sanitize)

section \<open>The shape of a line that parses\<close>

lemma for_loop_Some:
  "for_loop fp f = (Some c, fp', f') \<Longrightarrow>
     \<exists>cs. fp = cs @ newline # fp' \<and> newline \<notin> set cs \<and> f' = put NUL (feed cs f)"
proof (induction fp arbitrary: f)
  case Nil
  then show ?case by simp
next
  case (Cons a fp)
  show ?case
  proof (cases "a = newline")
    case True
    with Cons.prems have "fp' = fp" and "f' = put NUL f"
      by (simp_all add: body_newline)
    with True show ?thesis
      by (intro exI [of _ "[]"]) simp
  next
    case False
    then obtain g where g: "body a f = Continue g"
      using body_not_newline by blast
    with Cons.prems have "for_loop fp g = (Some c, fp', f')"
      by simp
    from Cons.IH [OF this] obtain cs where "fp = cs @ newline # fp'" and "newline \<notin> set cs"
      and "f' = put NUL (feed cs g)"
      by blast
    with False g show ?thesis
      by (intro exI [of _ "a # cs"]) simp
  qed
qed

lemma two_occurrences:
  assumes "2 \<le> count_list cs x"
  shows "\<exists>p n d. cs = p @ x # n @ x # d \<and> x \<notin> set p \<and> x \<notin> set n"
proof -
  from assms have "x \<in> set cs"
    using count_list_0_iff [of cs x] by auto
  then obtain p r where 1: "cs = p @ x # r" and p: "x \<notin> set p"
    by (auto dest: split_list_first)
  from p have "count_list p x = 0"
    by (simp add: count_list_0_iff)
  with assms 1 have "1 \<le> count_list r x"
    by simp
  then have "x \<in> set r"
    using count_list_0_iff [of r x] by auto
  then obtain n d where 2: "r = n @ x # d" and n: "x \<notin> set n"
    by (auto dest: split_list_first)
  from 1 2 p n show ?thesis
    by blast
qed

lemma success_shape:
  assumes "parse_next_match junk fp m = (0, fp', f)"
  shows "\<exists>p n d. fp = p @ SEPARATOR # n @ SEPARATOR # d @ newline # fp'
    \<and> SEPARATOR \<notin> set p \<and> newline \<notin> set p \<and> SEPARATOR \<notin> set n \<and> newline \<notin> set n
    \<and> newline \<notin> set d"
proof -
  from assms obtain c f0 where l: "for_loop fp (enter junk m) = (Some c, fp', f0)"
    and s: "state f0 = 2"
    by (auto simp: parse_next_match_def EOF_def split: prod.splits if_splits)
  from for_loop_Some [OF l] obtain cs where fp: "fp = cs @ newline # fp'"
    and nl: "newline \<notin> set cs" and f0: "f0 = put NUL (feed cs (enter junk m))"
    by blast
  from s f0 have "2 \<le> count_list cs SEPARATOR"
    by (simp add: put_fields state_feed enter_def)
  from two_occurrences [OF this] obtain p n d where cs: "cs = p @ SEPARATOR # n @ SEPARATOR # d"
    and "SEPARATOR \<notin> set p" and "SEPARATOR \<notin> set n"
    by blast
  with fp nl show ?thesis
    by auto
qed

lemma success_lengths:
  assumes "parse_next_match junk fp m = (rc, fp', f)"
  shows "length (filepath f) = length (filepath m)" "length (description f) = length (description m)"
    "length (line_num_buf f) = length junk"
proof -
  have l: "length (array b f0) = length (array b g)" if "for_loop cs g = (c, cs', f0)" for cs g c cs' f0 b
    using that
  proof (induction cs arbitrary: g)
    case Nil
    then show ?case by simp
  next
    case (Cons a cs)
    from length_array_body [of b a g] Cons show ?case
      by (cases "body a g") auto
  qed
  from assms obtain c f0 where "for_loop fp (enter junk m) = (c, fp', f0)"
    and "\<And>b. array b f = array b f0"
    by (auto simp: parse_next_match_def array_simps split: prod.splits if_splits)
  with l [of fp "enter junk m" c fp' f0] have "length (array b f) = length (array b (enter junk m))" for b
    by simp
  from this [of Filepath] this [of Description] this [of Line_num_buf]
  show "length (filepath f) = length (filepath m)" "length (description f) = length (description m)"
    "length (line_num_buf f) = length junk"
    by (simp_all add: enter_def)
qed

lemma c_string_Some_NUL: "c_string xs = Some s \<Longrightarrow> NUL \<in> set xs"
  by (simp add: c_string_def split: if_splits)

lemma fresh_lengths:
  "length (filepath fresh_slot) = MATCH_PATH_LEN"
  "length (description fresh_slot) = MATCH_DESCRIPTION_LEN"
  "length fresh_junk = LINE_NUM_BUF_LEN"
  by (simp_all add: fresh_slot_def fresh_junk_def)

lemma sanitize_replicate: "isprint c \<Longrightarrow> sanitize (replicate k c) = replicate k c"
  by (rule sanitize_printable) (simp add: list_all_iff)

section \<open>Stores of the append loop\<close>

lemma append_room:
  assumes "buffer f = (b, i)" and "i + buffer_avail f = sizeof b"
    and "length (array b f) = sizeof b" and "k < buffer_avail f"
  shows "array b (append k ch f) = take i (array b f) @ replicate k ch @ drop (i + k) (array b f)
    \<and> buffer (append k ch f) = (b, i + k) \<and> buffer_avail (append k ch f) = buffer_avail f - k
    \<and> oob (append k ch f) = oob f"
  using assms
proof (induction k arbitrary: f i)
  case 0
  then show ?case by simp
next
  case (Suc k)
  let ?g = "put_incr ch (f\<lparr>buffer_avail := buffer_avail f - 1\<rparr>)"
  from Suc.prems have lt: "i < sizeof b" and av: "1 < buffer_avail f"
    by simp_all
  from av have step: "append (Suc k) ch f = append k ch ?g"
    by simp
  from Suc.prems lt have g: "buffer ?g = (b, Suc i)" "buffer_avail ?g = buffer_avail f - 1"
    "array b ?g = (array b f)[i := ch]" "oob ?g = oob f"
    by (simp_all add: put_incr_def put_def array_simps)
  from g Suc.prems have "Suc i + buffer_avail ?g = sizeof b" "length (array b ?g) = sizeof b"
    "k < buffer_avail ?g"
    by simp_all
  from Suc.IH [OF g(1) this] g Suc.prems lt
  have "array b (append k ch ?g) =
      take (Suc i) ((array b f)[i := ch]) @ replicate k ch @ drop (Suc i + k) ((array b f)[i := ch])"
    and r: "buffer (append k ch ?g) = (b, Suc i + k)"
      "buffer_avail (append k ch ?g) = buffer_avail f - 1 - k" "oob (append k ch ?g) = oob f"
    by simp_all
  with Suc.prems lt
  have "array b (append k ch ?g) = take i (array b f) @ replicate (Suc k) ch @ drop (i + Suc k) (array b f)"
    by (simp add: take_Suc_conv_app_nth)
  with r show ?case
    by (simp only: step) simp
qed

lemma tracks_put_NUL: "tracks f t \<Longrightarrow> tracks (put NUL f) t"
  by (auto simp: tracks_def put_def array_simps split: prod.splits if_splits)

lemma tracks_switch_buffer:
  "length (array b f) = sizeof b \<Longrightarrow> tracks (switch_buffer b f) []"
  using sizeof_pos [of b]
  by (simp add: tracks_def switch_buffer_fields length_array_switch_buffer)

lemma frame_ok_enter:
  assumes "length (filepath m) = MATCH_PATH_LEN" and "length (description m) = MATCH_DESCRIPTION_LEN"
    and "length junk = LINE_NUM_BUF_LEN"
  shows "frame_ok (enter junk m)"
proof -
  have "length (array b (enter junk m)) = sizeof b" for b
    using assms by (cases b) (simp_all add: enter_def)
  with tracks_enter [OF assms(1), of junk] show ?thesis
    by (auto simp: frame_ok_def)
qed

lemma frame_ok_body:
  assumes "frame_ok f"
  shows "frame_ok (case body c f of Continue f' \<Rightarrow> f' | Break f' \<Rightarrow> f')"
proof -
  from assms obtain t where t: "tracks f t" and len: "\<And>b. length (array b f) = sizeof b"
    by (auto simp: frame_ok_def)
  have l: "length (array b (case body c f of Continue f' \<Rightarrow> f' | Break f' \<Rightarrow> f')) = sizeof b" for b
    by (simp add: length_array_body len)
  have "\<exists>t'. tracks (case body c f of Continue f' \<Rightarrow> f' | Break f' \<Rightarrow> f') t'"
  proof (cases "c = newline")
    case True
    with tracks_put_NUL [OF t] show ?thesis
      by (auto simp: body_newline)
  next
    case nl: False
    show ?thesis
    proof (cases "c = SEPARATOR \<and> state f < 2")
      case True
      then have "body c f = Continue (switch_buffer Line_num_buf f)
          \<or> body c f = Continue (switch_buffer Description f)"
        by (auto simp: body_def)
      with tracks_switch_buffer [OF len] show ?thesis
        by fastforce
    next
      case False
      with nl have "c \<noteq> newline" and "c \<noteq> SEPARATOR \<or> 2 \<le> state f"
        by auto
      from body_plain [OF this] obtain k ch where "body c f = Continue (append k ch f)"
        by blast
      with append_tracks [OF t, of k ch] show ?thesis
        by auto
    qed
  qed
  with l show ?thesis
    by (auto simp: frame_ok_def)
qed

lemma frame_ok_feed: "frame_ok f \<Longrightarrow> frame_ok (feed cs f)"
  by (induction cs arbitrary: f) (simp_all add: frame_ok_body)

lemma append_inside:
  assumes "frame_ok f"
  shows "oob (append k ch f) = oob f"
    and "buffer_avail (append k ch f) = 0 \<Longrightarrow>
      array (fst (buffer f)) (append k ch f) ! (sizeof (fst (buffer f)) - 1) = NUL"
proof -
  from assms obtain t where t: "tracks f t"
    by (auto simp: frame_ok_def)
  note a = append_tracks [OF t, of k ch]
  from a show "oob (append k ch f) = oob f"
    by (simp add: same_rest_def)
  assume "buffer_avail (append k ch f) = 0"
  with a have "array (fst (buffer (append k ch f))) (append k ch f)
      = take (sizeof (fst (buffer (append k ch f))) - 1) (t @ replicate k ch) @ [NUL]"
    using sizeof_pos [of "fst (buffer (append k ch f))"]
    by (auto simp: tracks_def split: prod.splits if_splits)
  moreover from a have "fst (buffer (append k ch f)) = fst (buffer f)"
    by (simp add: same_rest_def)
  moreover from a have "length (array (fst (buffer (append k ch f))) (append k ch f))
      = sizeof (fst (buffer (append k ch f)))"
    by (auto simp: tracks_def split: prod.splits)
  ultimately show "array (fst (buffer f)) (append k ch f) ! (sizeof (fst (buffer f)) - 1) = NUL"
    by (metis length_append_singleton diff_Suc_1 nth_append_length length_take
        min.absorb2 diff_le_self add_diff_cancel_right' One_nat_def)
qed

lemma WEXITSTATUS_W_EXITCODE: "0 \<le> c \<Longrightarrow> c < 256 \<Longrightarrow> WEXITSTATUS (W_EXITCODE c) = c"
  by (simp add: WEXITSTATUS_def W_EXITCODE_def)

section \<open>The buffers a call has closed\<close>

lemma returned_line:
  assumes "parse_next_match junk fp m = (rc, fp', f)" and "rc \<noteq> EOF"
  shows "\<exists>cs. fp = cs @ newline # fp' \<and> newline \<notin> set cs"
proof -
  from assms obtain c f0 where "for_loop fp (enter junk m) = (Some c, fp', f0)"
    by (auto simp: parse_next_match_def split: prod.splits if_splits)
  from for_loop_Some [OF this] show ?thesis
    by blast
qed

lemma one_occurrence:
  assumes "count_list cs x = 1"
  shows "\<exists>p n. cs = p @ x # n \<and> x \<notin> set p \<and> x \<notin> set n"
proof -
  from assms have "x \<in> set cs"
    using count_list_0_iff [of cs x] by auto
  then obtain p n where 1: "cs = p @ x # n" and p: "x \<notin> set p"
    by (auto dest: split_list_first)
  from p have "count_list p x = 0"
    by (simp add: count_list_0_iff)
  with assms 1 have "count_list n x = 0"
    by simp
  then have "x \<notin> set n"
    by (simp add: count_list_0_iff)
  with 1 p show ?thesis
    by blast
qed

lemma closed_buffers_terminated:
  assumes m: "length (filepath m) = MATCH_PATH_LEN" "length (description m) = MATCH_DESCRIPTION_LEN"
    and j: "length junk = LINE_NUM_BUF_LEN"
    and r: "parse_next_match junk fp m = (rc, fp', f)" and rc: "rc \<noteq> EOF"
  shows "NUL \<in> set (filepath f) \<and> (1 \<le> state f \<longrightarrow> NUL \<in> set (line_num_buf f))
    \<and> (rc = 0 \<longrightarrow> NUL \<in> set (description f))"
proof -
  from returned_line [OF r rc] obtain cs where fp: "fp = cs @ newline # fp'"
    and nl: "newline \<notin> set cs"
    by blast
  let ?e = "enter junk m"
  have e: "tracks ?e []" "fst (buffer ?e) = Filepath" "state ?e = 0"
    "array Line_num_buf ?e = junk"
    using m by (simp_all add: tracks_enter) (simp_all add: enter_def)
  consider (none) "count_list cs SEPARATOR = 0" | (one) "count_list cs SEPARATOR = 1"
    | (two) "2 \<le> count_list cs SEPARATOR"
    by linarith
  then show ?thesis
  proof cases
    case none
    then have sp: "SEPARATOR \<notin> set cs"
      by (simp add: count_list_0_iff)
    from r none nl have f: "f = put NUL (feed cs ?e)" and "rc = 1"
      by (simp_all add: fp parse_complete_line Let_def)
    from feed_plain [OF e(1) nl] sp
    have t: "tracks (feed cs ?e) (sanitize cs)" and s: "same_rest ?e (feed cs ?e)"
      by simp_all
    from s e have b: "fst (buffer (feed cs ?e)) = Filepath" and "state (feed cs ?e) = 0"
      by (simp_all add: same_rest_def)
    from put_NUL_tracks(1) [OF t NUL_notin_sanitize b] this(2) \<open>rc = 1\<close> show ?thesis
      by (auto simp: f put_fields dest: c_string_Some_NUL)
  next
    case one
    from one_occurrence [OF this] obtain p n where cs: "cs = p @ SEPARATOR # n"
      and p: "SEPARATOR \<notin> set p" and n: "SEPARATOR \<notin> set n"
      by blast
    from nl cs have nlp: "newline \<notin> set p" and nln: "newline \<notin> set n"
      by simp_all
    from r one nl have f: "f = put NUL (feed cs ?e)" and "rc = 1"
      by (simp_all add: fp parse_complete_line Let_def)
    let ?f1 = "feed p ?e"
    let ?f2 = "switch_buffer Line_num_buf ?f1"
    let ?f3 = "feed n ?f2"
    from feed_plain [OF e(1) nlp] p
    have t1: "tracks ?f1 (sanitize p)" and s1: "same_rest ?e ?f1"
      by simp_all
    from s1 e have f1: "fst (buffer ?f1) = Filepath" "state ?f1 = 0" "array Line_num_buf ?f1 = junk"
      by (auto simp: same_rest_def)
    note sw = switch_buffer_tracks [OF t1 NUL_notin_sanitize f1(1), of Line_num_buf]
    from sw(1,2) f1 j have t2: "tracks ?f2 []"
      and c2: "c_string (array Filepath ?f2) = Some (take (sizeof Filepath - 1) (sanitize p))"
      by simp_all
    have f2: "fst (buffer ?f2) = Line_num_buf" "state ?f2 = 1"
      using f1 by (simp_all add: switch_buffer_fields)
    from feed_plain [OF t2 nln] n
    have t3: "tracks ?f3 (sanitize n)" and s3: "same_rest ?f2 ?f3"
      by simp_all
    from s3 f2 c2 have f3: "fst (buffer ?f3) = Line_num_buf" "state ?f3 = 1"
      "c_string (array Filepath ?f3) = Some (take (sizeof Filepath - 1) (sanitize p))"
      by (auto simp: same_rest_def)
    have ff: "feed cs ?e = ?f3"
      using f1(2) by (simp add: cs feed_append feed_SEPARATOR del: feed.simps(2))
    note u = put_NUL_tracks [OF t3 NUL_notin_sanitize f3(1)]
    from u(1) u(3) [of Filepath] f3(3) \<open>rc = 1\<close> show ?thesis
      by (auto simp: f ff dest: c_string_Some_NUL)
  next
    case two
    from two_occurrences [OF this] obtain p n d where cs: "cs = p @ SEPARATOR # n @ SEPARATOR # d"
      and p: "SEPARATOR \<notin> set p" and n: "SEPARATOR \<notin> set n"
      by blast
    from nl cs have nls: "newline \<notin> set p" "newline \<notin> set n" "newline \<notin> set d"
      by simp_all
    from parse_line [OF m j p nls(1) n nls(2,3), of fp'] r show ?thesis
      by (auto simp: fp cs dest: c_string_Some_NUL)
  qed
qed

lemma parse_returns_0:
  assumes "newline \<notin> set l" and "2 \<le> count_list l SEPARATOR"
  shows "parse_next_match junk (l @ newline # fp) m
       = (0, fp, snd (snd (parse_next_match junk (l @ newline # fp) m)))"
    and "state (snd (snd (parse_next_match junk (l @ newline # fp) m))) = 2"
  using assms by (simp_all add: parse_complete_line Let_def put_fields state_feed enter_def)

section \<open>Stores and terminators\<close>

text \<open>
  What every call keeps to. In every frame the loop reaches, the append loop stores
  inside the buffer it fills: it adds nothing to \<open>oob\<close>, and once it has used the
  buffer up the last byte of the array is a NUL. After a call that returns 0 or 1, every
  buffer the call has reached holds a NUL within its declared size: \<open>filepath\<close> always,
  \<open>line_num_buf\<close> when a separator was read (the state is 1 or 2), \<open>description\<close> when
  the call returns 0.
\<close>

lemma append_stays_inside:
  assumes "length (filepath m) = MATCH_PATH_LEN" and "length (description m) = MATCH_DESCRIPTION_LEN"
    and "length junk = LINE_NUM_BUF_LEN"
  shows "oob (append k ch (feed cs (enter junk m))) = oob (feed cs (enter junk m))
    \<and> (buffer_avail (append k ch (feed cs (enter junk m))) = 0 \<longrightarrow>
         array (fst (buffer (feed cs (enter junk m)))) (append k ch (feed cs (enter junk m)))
           ! (sizeof (fst (buffer (feed cs (enter junk m)))) - 1) = NUL)
    \<and> (parse_next_match junk fp m = (rc, fp', f) \<longrightarrow> rc \<noteq> EOF \<longrightarrow>
         length (filepath f) = MATCH_PATH_LEN \<and> NUL \<in> set (filepath f)
       \<and> length (line_num_buf f) = LINE_NUM_BUF_LEN
       \<and> (1 \<le> state f \<longrightarrow> NUL \<in> set (line_num_buf f))
       \<and> length (description f) = MATCH_DESCRIPTION_LEN
       \<and> (rc = 0 \<longrightarrow> NUL \<in> set (description f)))"
proof (intro conjI impI)
  have ok: "frame_ok (feed cs (enter junk m))"
    by (intro frame_ok_feed frame_ok_enter assms)
  from append_inside(1) [OF ok]
  show "oob (append k ch (feed cs (enter junk m))) = oob (feed cs (enter junk m))" .
  show "array (fst (buffer (feed cs (enter junk m)))) (append k ch (feed cs (enter junk m)))
           ! (sizeof (fst (buffer (feed cs (enter junk m)))) - 1) = NUL"
    if "buffer_avail (append k ch (feed cs (enter junk m))) = 0"
    using append_inside(2) [OF ok that] .
next
  assume r: "parse_next_match junk fp m = (rc, fp', f)" and rc: "rc \<noteq> EOF"
  from success_lengths [OF r] assms
  show "length (filepath f) = MATCH_PATH_LEN" "length (line_num_buf f) = LINE_NUM_BUF_LEN"
    "length (description f) = MATCH_DESCRIPTION_LEN"
    by simp_all
  note c = closed_buffers_terminated [OF assms r rc]
  from c show "NUL \<in> set (filepath f)"
    by simp
  from c show "NUL \<in> set (line_num_buf f)" if "1 \<le> state f"
    using that by simp
  from c show "NUL \<in> set (description f)" if "rc = 0"
    using that by simp
qed

lemma put_NUL_line:
  assumes "tracks f t" and "fst (buffer f) = b"
  shows "line (put NUL f) =
    (if b = Filepath \<and> sizeof b \<le> length t then map_option (store_low_byte NUL) (line f)
     else line f)"
proof -
  obtain i where bi: "buffer f = (b, i)"
    using assms(2) by (cases "buffer f") simp
  with assms(1) show ?thesis
    by (cases b) (auto simp: put_def array_simps tracks_def split: if_splits)
qed

text \<open>
  C1. The comment of the function promises that the maximum length of each buffer is
  observed. The append loop observes it; the stores that terminate a buffer do not. On
  a line of 256 letters and a newline, read into a fresh slot, the call returns 1; the
  append loop has put 255 letters and a NUL into \<open>filepath\<close> and left the pointer at
  \<open>filepath + 256\<close>, and the newline branch then stores its NUL there, one byte past
  the array of 256 bytes. The byte belongs to \<open>line\<close>, which goes from
  \<^verbatim>\<open>0x3f3f3f3f\<close> to \<^verbatim>\<open>0x3f3f3f00\<close>. On the same 256 letters followed by
  \<open>:1:x\<close> and a newline, a line as \<^verbatim>\<open>grep -n\<close> writes it for a long path, the
  first separator makes the same store and the call returns 0.
\<close>

theorem filepath_terminator_past_the_end:
  "fst (parse_next_match fresh_junk (replicate 256 (CHR ''a'') @ [newline]) fresh_slot) = 1
   \<and> oob (snd (snd (parse_next_match fresh_junk (replicate 256 (CHR ''a'') @ [newline]) fresh_slot)))
     = [(Filepath, 256)]
   \<and> sizeof Filepath = 256
   \<and> c_string (filepath (snd (snd (parse_next_match fresh_junk
         (replicate 256 (CHR ''a'') @ [newline]) fresh_slot)))) = Some (replicate 255 (CHR ''a''))
   \<and> line fresh_slot = Some 1061109567
   \<and> line (snd (snd (parse_next_match fresh_junk (replicate 256 (CHR ''a'') @ [newline]) fresh_slot)))
     = Some 1061109504
   \<and> fst (parse_next_match fresh_junk (replicate 256 (CHR ''a'') @ '':1:x'' @ [newline]) fresh_slot) = 0
   \<and> oob (snd (snd (parse_next_match fresh_junk
         (replicate 256 (CHR ''a'') @ '':1:x'' @ [newline]) fresh_slot))) = [(Filepath, 256)]
   \<and> c_string (filepath (snd (snd (parse_next_match fresh_junk
         (replicate 256 (CHR ''a'') @ '':1:x'' @ [newline]) fresh_slot)))) = Some (replicate 255 (CHR ''a''))"
proof -
  let ?p = "replicate 256 (CHR ''a'')"
  let ?f = "feed ?p (enter fresh_junk fresh_slot)"
  have nl: "newline \<notin> set ?p" and sp: "SEPARATOR \<notin> set ?p"
    by (simp_all add: newline_def SEPARATOR_def)
  have c: "count_list ?p SEPARATOR = 0"
    using sp count_list_0_iff [of ?p SEPARATOR] by blast
  have r: "parse_next_match fresh_junk (?p @ newline # []) fresh_slot = (1, [], put NUL ?f)"
    using nl c by (simp add: parse_complete_line Let_def)
  have e: "tracks (enter fresh_junk fresh_slot) []" "fst (buffer (enter fresh_junk fresh_slot)) = Filepath"
    "oob (enter fresh_junk fresh_slot) = []"
    "line (enter fresh_junk fresh_slot) = Some 1061109567"
    by (simp_all add: tracks_enter fresh_lengths) (simp_all add: enter_def fresh_slot_def)
  from feed_plain [OF e(1) nl] sp
  have t: "tracks ?f (sanitize ?p)" and s: "same_rest (enter fresh_junk fresh_slot) ?f"
    by simp_all
  from s e have f: "fst (buffer ?f) = Filepath" "oob ?f = []" "line ?f = Some 1061109567"
    by (auto simp: same_rest_def)
  note u = put_NUL_tracks [OF t NUL_notin_sanitize f(1)]
  have sz: "sanitize ?p = ?p"
    by (simp add: sanitize_replicate isprint_def)
  from u(2) f(2) have "oob (put NUL ?f) = [(Filepath, 256)]"
    by (simp add: sz MATCH_PATH_LEN_def)
  moreover from u(1) have "c_string (filepath (put NUL ?f)) = Some (replicate 255 (CHR ''a''))"
    by (simp add: sz MATCH_PATH_LEN_def)
  moreover from put_NUL_line [OF t f(1)] f(3) have "line (put NUL ?f) = Some 1061109504"
    by (simp add: sz MATCH_PATH_LEN_def store_low_byte_def NUL_def)
  moreover have "line fresh_slot = Some 1061109567"
    by (simp add: fresh_slot_def)
  ultimately have 1: "fst (parse_next_match fresh_junk (?p @ [newline]) fresh_slot) = 1
     \<and> oob (snd (snd (parse_next_match fresh_junk (?p @ [newline]) fresh_slot))) = [(Filepath, 256)]
     \<and> sizeof Filepath = 256
     \<and> c_string (filepath (snd (snd (parse_next_match fresh_junk (?p @ [newline]) fresh_slot))))
         = Some (replicate 255 (CHR ''a''))
     \<and> line fresh_slot = Some 1061109567
     \<and> line (snd (snd (parse_next_match fresh_junk (?p @ [newline]) fresh_slot))) = Some 1061109504"
    using r by (simp add: MATCH_PATH_LEN_def)
  have h: "SEPARATOR \<notin> set ''1''" "newline \<notin> set ''1''" "newline \<notin> set ''x''"
    by (simp_all add: SEPARATOR_def newline_def)
  have o: "overflow Filepath ?p = [(Filepath, 256)]" "overflow Line_num_buf ''1'' = []"
    "overflow Description ''x'' = []"
    by (simp_all add: overflow_def MATCH_PATH_LEN_def LINE_NUM_BUF_LEN_def MATCH_DESCRIPTION_LEN_def)
  have "sanitize ''1'' = ''1''" "sanitize ''x'' = ''x''"
    by (simp_all add: sanitize_printable isprint_def)
  with parse_line [OF fresh_lengths sp nl h, of "[]"]
  have 2: "fst (parse_next_match fresh_junk (?p @ '':1:x'' @ [newline]) fresh_slot) = 0
     \<and> oob (snd (snd (parse_next_match fresh_junk (?p @ '':1:x'' @ [newline]) fresh_slot)))
         = [(Filepath, 256)]
     \<and> c_string (filepath (snd (snd (parse_next_match fresh_junk (?p @ '':1:x'' @ [newline]) fresh_slot))))
         = Some (replicate 255 (CHR ''a''))"
    by (auto simp: sz o SEPARATOR_def MATCH_PATH_LEN_def)
  from 1 2 show ?thesis
    by (elim conjE) (intro conjI; assumption)
qed

section \<open>A field longer than its buffer\<close>

text \<open>
  C2. On the line \<open>a:1:\<close>, 300 times \<open>d\<close>, newline, the call returns 0 with the first
  255 bytes of the description and a NUL in \<open>description\<close>, as the claim says; but the
  newline branch then stores a NUL at \<open>description[256]\<close>, one byte past the array of
  256 bytes.
\<close>

theorem description_terminator_past_the_end:
  "fst (parse_next_match fresh_junk (''a:1:'' @ replicate 300 (CHR ''d'') @ [newline]) fresh_slot) = 0
   \<and> c_string (description (snd (snd (parse_next_match fresh_junk
         (''a:1:'' @ replicate 300 (CHR ''d'') @ [newline]) fresh_slot)))) = Some (replicate 255 (CHR ''d''))
   \<and> oob (snd (snd (parse_next_match fresh_junk
         (''a:1:'' @ replicate 300 (CHR ''d'') @ [newline]) fresh_slot))) = [(Description, 256)]
   \<and> sizeof Description = 256"
proof -
  have h: "SEPARATOR \<notin> set ''a''" "newline \<notin> set ''a''"
    "SEPARATOR \<notin> set ''1''" "newline \<notin> set ''1''" "newline \<notin> set (replicate 300 (CHR ''d''))"
    by (simp_all add: SEPARATOR_def newline_def)
  have s: "sanitize (replicate 300 (CHR ''d'')) = replicate 300 (CHR ''d'')"
    "sanitize ''1'' = ''1''" "sanitize ''a'' = ''a''"
    by (simp_all add: sanitize_replicate sanitize_printable isprint_def)
  have o: "overflow Description (replicate 300 (CHR ''d'')) = [(Description, 256)]"
    "overflow Line_num_buf ''1'' = []" "overflow Filepath ''a'' = []"
    by (simp_all add: overflow_def MATCH_PATH_LEN_def LINE_NUM_BUF_LEN_def MATCH_DESCRIPTION_LEN_def)
  from parse_line [OF fresh_lengths h, of "[]"] show ?thesis
    by (auto simp: s o SEPARATOR_def MATCH_DESCRIPTION_LEN_def)
qed

section \<open>A line with fewer than two separators\<close>

text \<open>
  C3. A line with fewer than two separators before its newline: the call returns 1
  (the record could not be parsed) and leaves the stream at the next line; the loop of
  \<open>build_menu\<close> goes on from there with the same count, the same capacity and the same
  records. It goes on to the end of the stream: in a store as the loop has it at its
  test, the loop returns whenever \<^verbatim>\<open>realloc\<close> does not fail, and at its return the
  records stored before the line are as they were and the count has grown by the
  number of records in the lines after this one, and not by this line.
\<close>

theorem malformed_line_is_dropped:
  assumes "newline \<notin> set l" and "count_list l SEPARATOR < 2"
    and "matchc g < matcha g" and "length (matchv g) = matcha g"
  shows "fst (parse_next_match junk (l @ newline # fp) m) = 1
    \<and> fst (snd (parse_next_match junk (l @ newline # fp) m)) = fp
    \<and> (\<exists>g'. parse_loop e (l @ newline # fp) g = parse_loop e fp g'
          \<and> matchc g' = matchc g \<and> matcha g' = matcha g
          \<and> length (matchv g') = length (matchv g) \<and> records g' = records g)
    \<and> (store_inv g \<longrightarrow>
         ((\<forall>n. realloc_ok e n) \<longrightarrow> (\<exists>g'. parse_loop e (l @ newline # fp) g = Inr g'))
       \<and> (\<forall>g'. parse_loop e (l @ newline # fp) g = Inr g' \<longrightarrow>
             matchc g' = matchc g + matches_in fp \<and> take (matchc g) (matchv g') = records g))"
proof -
  let ?g = "g\<lparr>matchv := (matchv g)[matchc g :=
       slot_of (put NUL (feed l (enter (stack_junk e) (matchv g ! matchc g))))]\<rparr>"
  have "parse_loop e (l @ newline # fp) g = parse_loop e fp ?g"
    using assms by (rule parse_loop_malformed)
  moreover have "matchc ?g = matchc g" "matcha ?g = matcha g" "records ?g = records g"
    "length (matchv ?g) = length (matchv g)"
    by (simp_all add: records_def)
  ultimately have 3: "\<exists>g'. parse_loop e (l @ newline # fp) g = parse_loop e fp g'
          \<and> matchc g' = matchc g \<and> matcha g' = matcha g
          \<and> length (matchv g') = length (matchv g) \<and> records g' = records g"
    by blast
  have m: "matches_in (l @ newline # fp) = matches_in fp"
    using assms(1,2) by (simp add: matches_in_line)
  have 4: "\<exists>g'. parse_loop e (l @ newline # fp) g = Inr g'"
    if "store_inv g" and "\<forall>n. realloc_ok e n"
    using that by (rule parse_loop_total)
  have 5: "matchc g' = matchc g + matches_in fp \<and> take (matchc g) (matchv g') = records g"
    if "store_inv g" and "parse_loop e (l @ newline # fp) g = Inr g'" for g'
    using parse_loop_count [OF that] parse_loop_keeps_records [OF that(2)]
    by (simp add: m records_def)
  have 1: "fst (parse_next_match junk (l @ newline # fp) m) = 1"
    and 2: "fst (snd (parse_next_match junk (l @ newline # fp) m)) = fp"
    using assms(1,2) by (simp_all add: parse_complete_line Let_def)
  from 4 5 have "store_inv g \<longrightarrow>
         ((\<forall>n. realloc_ok e n) \<longrightarrow> (\<exists>g'. parse_loop e (l @ newline # fp) g = Inr g'))
       \<and> (\<forall>g'. parse_loop e (l @ newline # fp) g = Inr g' \<longrightarrow>
             matchc g' = matchc g + matches_in fp \<and> take (matchc g) (matchv g') = records g)"
    by blast
  with 1 2 3 show ?thesis
    by (intro conjI)
qed

theorem malformed_line_is_dropped_witness:
  "fst (parse_next_match fresh_junk
          (''/a/b.c hello'' @ newline # ''/a/b.c:10:hello world'' @ [newline]) fresh_slot) = 1
   \<and> fst (snd (parse_next_match fresh_junk
          (''/a/b.c hello'' @ newline # ''/a/b.c:10:hello world'' @ [newline]) fresh_slot))
       = ''/a/b.c:10:hello world'' @ [newline]
   \<and> (\<exists>g'. parse_loop (env0 None)
          (''/a/b.c hello'' @ newline # ''/a/b.c:10:hello world'' @ [newline]) store0 = Inr g'
        \<and> matchc g' = 1)"
proof -
  let ?l = "''/a/b.c hello''"
  let ?fp = "''/a/b.c:10:hello world'' @ [newline]"
  have h: "newline \<notin> set ?l" "count_list ?l SEPARATOR < 2"
    "matchc store0 < matcha store0" "length (matchv store0) = matcha store0"
    by (simp_all add: newline_def SEPARATOR_def store0_def MATCH_CHUNK_LEN_def)
  have i: "store_inv store0" "\<forall>n. realloc_ok (env0 None) n" "matchc store0 = 0"
    by (simp_all add: store_inv_def store0_def env0_def MATCH_CHUNK_LEN_def)
  have "newline \<notin> set ''/a/b.c:10:hello world''" "2 \<le> count_list ''/a/b.c:10:hello world'' SEPARATOR"
    by (simp_all add: newline_def SEPARATOR_def)
  from matches_in_lines [OF this, of 1]
  have c: "matches_in ?fp = 1"
    by simp
  note t = malformed_line_is_dropped [OF h, of fresh_junk ?fp fresh_slot "env0 None"]
  from t have 1: "fst (parse_next_match fresh_junk (?l @ newline # ?fp) fresh_slot) = 1"
    by (rule conjunct1)
  from t have 2: "fst (snd (parse_next_match fresh_junk (?l @ newline # ?fp) fresh_slot)) = ?fp"
    by (rule conjunct1 [OF conjunct2])
  from t have "store_inv store0 \<longrightarrow>
         ((\<forall>n. realloc_ok (env0 None) n) \<longrightarrow>
            (\<exists>g'. parse_loop (env0 None) (?l @ newline # ?fp) store0 = Inr g'))
       \<and> (\<forall>g'. parse_loop (env0 None) (?l @ newline # ?fp) store0 = Inr g' \<longrightarrow>
             matchc g' = matchc store0 + matches_in ?fp
           \<and> take (matchc store0) (matchv g') = records store0)"
    by (rule conjunct2 [OF conjunct2 [OF conjunct2]])
  from mp [OF this i(1)]
  have 3: "(\<forall>n. realloc_ok (env0 None) n) \<longrightarrow>
            (\<exists>g'. parse_loop (env0 None) (?l @ newline # ?fp) store0 = Inr g')"
    and 4: "\<forall>g'. parse_loop (env0 None) (?l @ newline # ?fp) store0 = Inr g' \<longrightarrow>
             matchc g' = matchc store0 + matches_in ?fp
           \<and> take (matchc store0) (matchv g') = records store0"
    by (rule conjunct1, rule conjunct2)
  from mp [OF 3 i(2)] obtain g' where g: "parse_loop (env0 None) (?l @ newline # ?fp) store0 = Inr g'"
    ..
  from mp [OF spec [OF 4] g] have "matchc g' = matchc store0 + matches_in ?fp"
    by (rule conjunct1)
  then have "matchc g' = 1"
    by (simp only: i(3) c)
  with g have "\<exists>g'. parse_loop (env0 None) (?l @ newline # ?fp) store0 = Inr g' \<and> matchc g' = 1"
    by (intro exI conjI)
  with 1 2 show ?thesis
    by (intro conjI)
qed

section \<open>No match at all: the exit status\<close>

text \<open>
  C4. When the parsing loop ends with no record stored (\<open>matchc\<close> is 0) and the
  producer exited with code \<open>c\<close>, \<open>build_menu\<close> ends the program with status \<open>c\<close>:
  after the message about the numbering option when \<open>c\<close> is 0, after "No matches."
  when \<open>c\<close> is 1, and with no message for any other code.
\<close>

theorem zero_matches_exit_status:
  assumes "init_matchv e = Inr g0" and "parse_loop e fp g0 = Inr g" and "matchc g = 0"
    and "wait_status e = Some (W_EXITCODE c)" and "0 \<le> c" and "c < 256"
  shows "build_menu e fp =
    Exit c (if c = 0 then [msg_unable_to_parse] else if c = 1 then [msg_no_matches] else [])"
  using assms by (simp add: build_menu_def WEXITSTATUS_W_EXITCODE)

theorem zero_matches_exit_status_witness:
  "build_menu (env0 (Some (W_EXITCODE 1))) [] = Exit 1 [msg_no_matches]
   \<and> build_menu (env0 (Some (W_EXITCODE 0))) (''/a/b.c:hello world'' @ [newline])
       = Exit 0 [msg_unable_to_parse]
   \<and> build_menu (env0 (Some (W_EXITCODE 2))) [] = Exit 2 []"
proof -
  have p: "parse_loop (env0 w) [] store0 = Inr store0" for w
    by (rule parse_loop_Nil) (simp add: store0_def MATCH_CHUNK_LEN_def)
  have z: "matchc store0 = 0"
    by (simp add: store0_def)
  have w: "wait_status (env0 (Some s)) = Some s" for s
    by (simp add: env0_def)
  have "newline \<notin> set ''/a/b.c:hello world''" "count_list ''/a/b.c:hello world'' SEPARATOR < 2"
    by (simp_all add: newline_def SEPARATOR_def)
  from parse_loop_one_malformed_line [OF this, of "Some (W_EXITCODE 0)"]
  obtain g where g: "parse_loop (env0 (Some (W_EXITCODE 0))) (''/a/b.c:hello world'' @ [newline]) store0
      = Inr g" and c: "matchc g = 0"
    by blast
  from zero_matches_exit_status [where c = 1, OF init_matchv_env0 p z w]
    zero_matches_exit_status [where c = 0, OF init_matchv_env0 g c w]
    zero_matches_exit_status [where c = 2, OF init_matchv_env0 p z w]
  show ?thesis
    by simp
qed

section \<open>Bytes that are not printable\<close>

text \<open>
  The stores of the branch for a byte that is not printable, in a frame with room: if
  the byte is no tab and more than one byte is free, exactly one \<open>NONPRINT_REPL\<close> is
  stored at the pointer, which moves on by one; if it is a tab and more than \<open>TAB_STOP\<close>
  bytes are free, exactly \<open>TAB_STOP\<close> times \<open>TAB_REPL\<close> are stored and the pointer moves
  on by \<open>TAB_STOP\<close>. The rest of the array is as it was.
\<close>

lemma replacement_stores:
  assumes "buffer f = (b, i)" and "i + buffer_avail f = sizeof b"
    and "length (array b f) = sizeof b"
    and "\<not> isprint c" and "c \<noteq> newline"
  shows "(c \<noteq> tab \<longrightarrow> 1 < buffer_avail f \<longrightarrow>
      (\<exists>f'. body c f = Continue f' \<and> array b f' = (array b f)[i := NONPRINT_REPL]
         \<and> buffer f' = (b, i + 1) \<and> buffer_avail f' = buffer_avail f - 1))
    \<and> (c = tab \<longrightarrow> TAB_STOP < buffer_avail f \<longrightarrow>
      (\<exists>f'. body c f = Continue f'
         \<and> array b f' = take i (array b f) @ replicate TAB_STOP TAB_REPL @ drop (i + TAB_STOP) (array b f)
         \<and> buffer f' = (b, i + TAB_STOP) \<and> buffer_avail f' = buffer_avail f - TAB_STOP))"
proof (intro conjI impI)
  assume nt: "c \<noteq> tab" and av: "1 < buffer_avail f"
  from assms(4) have "c \<noteq> SEPARATOR"
    using isprint_SEPARATOR by auto
  with assms(4,5) nt have b: "body c f = Continue (append 1 NONPRINT_REPL f)"
    by (simp add: body_def del: append.simps)
  from assms(2) av have "i < length (array b f)"
    using assms(3) by simp
  then have "take i (array b f) @ replicate 1 NONPRINT_REPL @ drop (i + 1) (array b f)
      = (array b f)[i := NONPRINT_REPL]"
    by (simp add: upd_conv_take_nth_drop)
  with append_room [OF assms(1-3) av, of NONPRINT_REPL] b
  show "\<exists>f'. body c f = Continue f' \<and> array b f' = (array b f)[i := NONPRINT_REPL]
         \<and> buffer f' = (b, i + 1) \<and> buffer_avail f' = buffer_avail f - 1"
    by (simp del: append.simps)
next
  assume t: "c = tab" and av: "TAB_STOP < buffer_avail f"
  from assms(4) have "c \<noteq> SEPARATOR"
    using isprint_SEPARATOR by auto
  with assms(4,5) t have b: "body c f = Continue (append TAB_STOP TAB_REPL f)"
    by (simp add: body_def del: append.simps)
  with append_room [OF assms(1-3) av, of TAB_REPL]
  show "\<exists>f'. body c f = Continue f'
         \<and> array b f' = take i (array b f) @ replicate TAB_STOP TAB_REPL @ drop (i + TAB_STOP) (array b f)
         \<and> buffer f' = (b, i + TAB_STOP) \<and> buffer_avail f' = buffer_avail f - TAB_STOP"
    by simp
qed

text \<open>
  C5. A byte \<open>c\<close> that is not printable and that the branch for such bytes receives
  (the newline never does: it ends the line before), wherever it stands in the first,
  the second or the third field of a line: the call returns 0, and the buffer of that
  field holds the text of the field with \<open>TAB_STOP\<close> times \<open>TAB_REPL\<close> in the place
  of \<open>c\<close> when \<open>c\<close> is a tab, and one \<open>NONPRINT_REPL\<close> in its place otherwise, cut to
  the room of the array like any text. In every frame the loop body hands exactly that
  many replacement bytes to the append loop.
\<close>

theorem nonprintable_is_replaced:
  assumes "length (filepath m) = MATCH_PATH_LEN" and "length (description m) = MATCH_DESCRIPTION_LEN"
    and "length junk = LINE_NUM_BUF_LEN"
    and "\<not> isprint c" and "c \<noteq> newline"
    and "SEPARATOR \<notin> set (p @ n @ xs @ ys)"
    and "newline \<notin> set (p @ n @ d @ xs @ ys @ d1 @ d2)"
  shows "(\<exists>f. parse_next_match junk
             ((xs @ c # ys) @ SEPARATOR # n @ SEPARATOR # d @ newline # fp) m = (0, fp, f)
        \<and> c_string (filepath f) =
            Some (take (MATCH_PATH_LEN - 1)
              (sanitize xs @ (if c = tab then replicate TAB_STOP TAB_REPL else [NONPRINT_REPL])
                 @ sanitize ys)))
    \<and> (\<exists>f. parse_next_match junk
             (p @ SEPARATOR # (xs @ c # ys) @ SEPARATOR # d @ newline # fp) m = (0, fp, f)
        \<and> c_string (line_num_buf f) =
            Some (take (LINE_NUM_BUF_LEN - 1)
              (sanitize xs @ (if c = tab then replicate TAB_STOP TAB_REPL else [NONPRINT_REPL])
                 @ sanitize ys)))
    \<and> (\<exists>f. parse_next_match junk
             (p @ SEPARATOR # n @ SEPARATOR # (d1 @ c # d2) @ newline # fp) m = (0, fp, f)
        \<and> c_string (description f) =
            Some (take (MATCH_DESCRIPTION_LEN - 1)
              (sanitize d1 @ (if c = tab then replicate TAB_STOP TAB_REPL else [NONPRINT_REPL])
                 @ sanitize d2)))
    \<and> body c g = Continue (append (if c = tab then TAB_STOP else 1)
                              (if c = tab then TAB_REPL else NONPRINT_REPL) g)"
proof -
  from assms(4) have sep: "c \<noteq> SEPARATOR"
    using isprint_SEPARATOR by auto
  have h: "SEPARATOR \<notin> set p" "newline \<notin> set p" "SEPARATOR \<notin> set n" "newline \<notin> set n"
    "newline \<notin> set d"
    "SEPARATOR \<notin> set (xs @ c # ys)" "newline \<notin> set (xs @ c # ys)"
    "newline \<notin> set (d1 @ c # d2)"
    using assms(5-7) sep by auto
  have s: "sanitize (us @ c # vs)
      = sanitize us @ (if c = tab then replicate TAB_STOP TAB_REPL else [NONPRINT_REPL]) @ sanitize vs"
    for us vs
    using assms(4) by (simp add: sanitize_simps sanitize_char_def)
  from parse_line [OF assms(1-3) h(6,7,3,4,5), of fp]
  have 1: "\<exists>f. parse_next_match junk
             ((xs @ c # ys) @ SEPARATOR # n @ SEPARATOR # d @ newline # fp) m = (0, fp, f)
        \<and> c_string (filepath f) =
            Some (take (MATCH_PATH_LEN - 1)
              (sanitize xs @ (if c = tab then replicate TAB_STOP TAB_REPL else [NONPRINT_REPL])
                 @ sanitize ys))"
    unfolding s by blast
  from parse_line [OF assms(1-3) h(1,2,6,7,5), of fp]
  have 2: "\<exists>f. parse_next_match junk
             (p @ SEPARATOR # (xs @ c # ys) @ SEPARATOR # d @ newline # fp) m = (0, fp, f)
        \<and> c_string (line_num_buf f) =
            Some (take (LINE_NUM_BUF_LEN - 1)
              (sanitize xs @ (if c = tab then replicate TAB_STOP TAB_REPL else [NONPRINT_REPL])
                 @ sanitize ys))"
    unfolding s by blast
  from parse_line [OF assms(1-3) h(1,2,3,4,8), of fp]
  have 3: "\<exists>f. parse_next_match junk
             (p @ SEPARATOR # n @ SEPARATOR # (d1 @ c # d2) @ newline # fp) m = (0, fp, f)
        \<and> c_string (description f) =
            Some (take (MATCH_DESCRIPTION_LEN - 1)
              (sanitize d1 @ (if c = tab then replicate TAB_STOP TAB_REPL else [NONPRINT_REPL])
                 @ sanitize d2))"
    unfolding s by blast
  have 4: "body c g = Continue (append (if c = tab then TAB_STOP else 1)
                              (if c = tab then TAB_REPL else NONPRINT_REPL) g)"
    using assms(4,5) sep by (simp add: body_def del: append.simps)
  from 1 2 3 4 show ?thesis
    by (intro conjI)
qed

theorem nonprintable_is_replaced_witness:
  "(\<exists>f. parse_next_match fresh_junk
            ((''a'' @ tab # ''b'') @ SEPARATOR # ''1'' @ SEPARATOR # ''x'' @ [newline]) fresh_slot
          = (0, [], f)
      \<and> c_string (filepath f) = Some ''a    b'')
   \<and> (\<exists>f. parse_next_match fresh_junk
            (''f'' @ SEPARATOR # (''a'' @ tab # ''b'') @ SEPARATOR # ''x'' @ [newline]) fresh_slot
          = (0, [], f)
      \<and> c_string (line_num_buf f) = Some ''a    b'')
   \<and> (\<exists>f. parse_next_match fresh_junk
            (''f'' @ SEPARATOR # ''1'' @ SEPARATOR # (''x'' @ tab # ''y'') @ [newline]) fresh_slot
          = (0, [], f)
      \<and> c_string (description f) = Some ''x    y'')
   \<and> body tab (enter fresh_junk fresh_slot)
       = Continue (append 4 (CHR '' '') (enter fresh_junk fresh_slot))
   \<and> (\<exists>f. parse_next_match fresh_junk
            ((''a'' @ CHR 0x07 # ''b'') @ SEPARATOR # ''1'' @ SEPARATOR # ''x'' @ [newline]) fresh_slot
          = (0, [], f)
      \<and> c_string (filepath f) = Some ''a.b'')
   \<and> (\<exists>f. parse_next_match fresh_junk
            (''f'' @ SEPARATOR # (''a'' @ CHR 0x07 # ''b'') @ SEPARATOR # ''x'' @ [newline]) fresh_slot
          = (0, [], f)
      \<and> c_string (line_num_buf f) = Some ''a.b'')
   \<and> (\<exists>f. parse_next_match fresh_junk
            (''f'' @ SEPARATOR # ''1'' @ SEPARATOR # (''x'' @ CHR 0x07 # ''y'') @ [newline]) fresh_slot
          = (0, [], f)
      \<and> c_string (description f) = Some ''x.y'')
   \<and> body (CHR 0x07) (enter fresh_junk fresh_slot)
       = Continue (append 1 (CHR ''.'') (enter fresh_junk fresh_slot))"
proof -
  have c: "\<not> isprint tab" "tab \<noteq> newline" "\<not> isprint (CHR 0x07)" "CHR 0x07 \<noteq> newline"
    "CHR 0x07 \<noteq> tab"
    by (simp_all add: isprint_def newline_def tab_def)
  have h: "SEPARATOR \<notin> set (''f'' @ ''1'' @ ''a'' @ ''b'')"
    "newline \<notin> set (''f'' @ ''1'' @ ''x'' @ ''a'' @ ''b'' @ ''x'' @ ''y'')"
    by (simp_all add: SEPARATOR_def newline_def)
  have s: "sanitize ''a'' = ''a''" "sanitize ''b'' = ''b''" "sanitize ''x'' = ''x''"
    "sanitize ''y'' = ''y''"
    by (simp_all add: sanitize_printable isprint_def)
  have four: "replicate 4 x = [x, x, x, x]" for x :: char
    by (simp add: numeral_eq_Suc)
  note k = MATCH_PATH_LEN_def LINE_NUM_BUF_LEN_def MATCH_DESCRIPTION_LEN_def TAB_STOP_def
    TAB_REPL_def NONPRINT_REPL_def four
  from nonprintable_is_replaced [OF fresh_lengths c(1,2) h, of "[]" "enter fresh_junk fresh_slot"]
  have 1: "(\<exists>f. parse_next_match fresh_junk
            ((''a'' @ tab # ''b'') @ SEPARATOR # ''1'' @ SEPARATOR # ''x'' @ [newline]) fresh_slot
          = (0, [], f)
      \<and> c_string (filepath f) = Some ''a    b'')
   \<and> (\<exists>f. parse_next_match fresh_junk
            (''f'' @ SEPARATOR # (''a'' @ tab # ''b'') @ SEPARATOR # ''x'' @ [newline]) fresh_slot
          = (0, [], f)
      \<and> c_string (line_num_buf f) = Some ''a    b'')
   \<and> (\<exists>f. parse_next_match fresh_junk
            (''f'' @ SEPARATOR # ''1'' @ SEPARATOR # (''x'' @ tab # ''y'') @ [newline]) fresh_slot
          = (0, [], f)
      \<and> c_string (description f) = Some ''x    y'')
   \<and> body tab (enter fresh_junk fresh_slot)
       = Continue (append 4 (CHR '' '') (enter fresh_junk fresh_slot))"
    by (simp add: s k del: append.simps)
  from nonprintable_is_replaced [OF fresh_lengths c(3,4) h, of "[]" "enter fresh_junk fresh_slot"] c(5)
  have 2: "(\<exists>f. parse_next_match fresh_junk
            ((''a'' @ CHR 0x07 # ''b'') @ SEPARATOR # ''1'' @ SEPARATOR # ''x'' @ [newline]) fresh_slot
          = (0, [], f)
      \<and> c_string (filepath f) = Some ''a.b'')
   \<and> (\<exists>f. parse_next_match fresh_junk
            (''f'' @ SEPARATOR # (''a'' @ CHR 0x07 # ''b'') @ SEPARATOR # ''x'' @ [newline]) fresh_slot
          = (0, [], f)
      \<and> c_string (line_num_buf f) = Some ''a.b'')
   \<and> (\<exists>f. parse_next_match fresh_junk
            (''f'' @ SEPARATOR # ''1'' @ SEPARATOR # (''x'' @ CHR 0x07 # ''y'') @ [newline]) fresh_slot
          = (0, [], f)
      \<and> c_string (description f) = Some ''x.y'')
   \<and> body (CHR 0x07) (enter fresh_junk fresh_slot)
       = Continue (append 1 (CHR ''.'') (enter fresh_junk fresh_slot))"
    by (simp add: s k del: append.simps)
  from 1 2 show ?thesis
    by (intro conjI) simp_all
qed

section \<open>Writing a record and reading it back\<close>

text \<open>
  C6. A record whose path and description are shorter than their arrays and made of
  printable bytes other than the separator, and whose line number fits an
  \<^verbatim>\<open>int\<close>: the call on its serialized line returns 0, leaves the stream after the
  line, and the slot holds exactly the path, the number and the description.
\<close>

theorem round_trip:
  assumes "length (filepath m) = MATCH_PATH_LEN" and "length (description m) = MATCH_DESCRIPTION_LEN"
    and "length junk = LINE_NUM_BUF_LEN"
    and "length p < MATCH_PATH_LEN" and "length d < MATCH_DESCRIPTION_LEN"
    and "list_all (\<lambda>c. isprint c \<and> c \<noteq> SEPARATOR) p"
    and "list_all (\<lambda>c. isprint c \<and> c \<noteq> SEPARATOR) d"
    and "int k \<le> INT_MAX"
  shows "\<exists>f. parse_next_match junk (serialize p k d @ fp) m = (0, fp, f)
    \<and> c_string (filepath f) = Some p \<and> line f = Some (int k) \<and> c_string (description f) = Some d"
proof -
  note p = printable_field [OF assms(6)]
  note d = printable_field [OF assms(7)]
  note n = printable_field [OF digits_field [OF isdigit_dec [of k]]]
  from length_dec_int [OF assms(8)] have ln: "length (dec k) < LINE_NUM_BUF_LEN"
    by (simp add: LINE_NUM_BUF_LEN_def)
  from parse_line [OF assms(1,2,3) p(2,3) n(2,3) d(3), of fp]
  obtain f where "parse_next_match junk (p @ SEPARATOR # dec k @ SEPARATOR # d @ newline # fp) m = (0, fp, f)"
    and "c_string (filepath f) = Some (take (MATCH_PATH_LEN - 1) (sanitize p))"
    and "line f = Some (atoi (take (LINE_NUM_BUF_LEN - 1) (sanitize (dec k))))"
    and "c_string (description f) = Some (take (MATCH_DESCRIPTION_LEN - 1) (sanitize d))"
    by blast
  with p(1) d(1) n(1) assms(4,5) ln atoi_dec [OF assms(8)] show ?thesis
    by (auto simp: serialize_def)
qed

theorem round_trip_witness:
  "\<exists>f. parse_next_match fresh_junk (''/a/b.c:10:hello world'' @ [newline]) fresh_slot = (0, [], f)
    \<and> c_string (filepath f) = Some ''/a/b.c'' \<and> line f = Some 10
    \<and> c_string (description f) = Some ''hello world''"
proof -
  have h: "length (filepath fresh_slot) = MATCH_PATH_LEN"
    "length (description fresh_slot) = MATCH_DESCRIPTION_LEN"
    "length fresh_junk = LINE_NUM_BUF_LEN"
    "length ''/a/b.c'' < MATCH_PATH_LEN" "length ''hello world'' < MATCH_DESCRIPTION_LEN"
    "list_all (\<lambda>c. isprint c \<and> c \<noteq> SEPARATOR) ''/a/b.c''"
    "list_all (\<lambda>c. isprint c \<and> c \<noteq> SEPARATOR) ''hello world''"
    "int 10 \<le> INT_MAX"
    by (simp_all add: fresh_slot_def fresh_junk_def MATCH_PATH_LEN_def MATCH_DESCRIPTION_LEN_def
        isprint_def SEPARATOR_def INT_MAX_def)
  have s: "serialize ''/a/b.c'' 10 ''hello world'' @ [] = ''/a/b.c:10:hello world'' @ [newline]"
    by (simp add: serialize_def dec_10 SEPARATOR_def)
  from round_trip [OF h, of "[]"] show ?thesis
    by (simp only: s) simp
qed

section \<open>Separators after the second one\<close>

text \<open>
  C7. In a line with a third separator, whatever stands around it in the third field,
  the call returns 0; the path and the line-number text are what stands before the
  first and between the first two separators; and the description is the text after
  the second separator with the third one in its place as a byte of its own, cut to the
  room of the array like any text. In state 2 the loop body hands a separator to the
  append loop as it does a printable byte.
\<close>

theorem separators_in_description_are_literal:
  assumes "length (filepath m) = MATCH_PATH_LEN" and "length (description m) = MATCH_DESCRIPTION_LEN"
    and "length junk = LINE_NUM_BUF_LEN"
    and "SEPARATOR \<notin> set p" and "newline \<notin> set p"
    and "SEPARATOR \<notin> set n" and "newline \<notin> set n"
    and "newline \<notin> set d1" and "newline \<notin> set d2"
  shows "(\<exists>f. parse_next_match junk
             (p @ SEPARATOR # n @ SEPARATOR # d1 @ SEPARATOR # d2 @ newline # fp) m = (0, fp, f)
        \<and> c_string (filepath f) = Some (take (MATCH_PATH_LEN - 1) (sanitize p))
        \<and> c_string (line_num_buf f) = Some (take (LINE_NUM_BUF_LEN - 1) (sanitize n))
        \<and> c_string (description f) =
            Some (take (MATCH_DESCRIPTION_LEN - 1) (sanitize d1 @ SEPARATOR # sanitize d2)))
    \<and> (2 \<le> state g \<longrightarrow> body SEPARATOR g = Continue (append 1 SEPARATOR g))"
proof -
  have d: "newline \<notin> set (d1 @ SEPARATOR # d2)"
    using assms(8,9) by (simp add: SEPARATOR_def newline_def)
  have s: "sanitize (d1 @ SEPARATOR # d2) = sanitize d1 @ SEPARATOR # sanitize d2"
    by (simp add: sanitize_simps sanitize_char_SEPARATOR)
  from parse_line [OF assms(1-7) d, of fp] s
  have "\<exists>f. parse_next_match junk
             (p @ SEPARATOR # n @ SEPARATOR # d1 @ SEPARATOR # d2 @ newline # fp) m = (0, fp, f)
        \<and> c_string (filepath f) = Some (take (MATCH_PATH_LEN - 1) (sanitize p))
        \<and> c_string (line_num_buf f) = Some (take (LINE_NUM_BUF_LEN - 1) (sanitize n))
        \<and> c_string (description f) =
            Some (take (MATCH_DESCRIPTION_LEN - 1) (sanitize d1 @ SEPARATOR # sanitize d2))"
    by auto
  moreover have "2 \<le> state g \<longrightarrow> body SEPARATOR g = Continue (append 1 SEPARATOR g)"
    by (auto simp: body_def simp del: append.simps)
  ultimately show ?thesis
    by blast
qed

theorem separators_in_description_are_literal_witness:
  "(\<exists>f. parse_next_match fresh_junk (''/a/b.c:10:hello:world'' @ [newline]) fresh_slot = (0, [], f)
     \<and> c_string (filepath f) = Some ''/a/b.c''
     \<and> c_string (line_num_buf f) = Some ''10''
     \<and> c_string (description f) = Some ''hello:world'')
   \<and> body SEPARATOR (feed ''/a/b.c:10:hello'' (enter fresh_junk fresh_slot))
       = Continue (append 1 SEPARATOR (feed ''/a/b.c:10:hello'' (enter fresh_junk fresh_slot)))"
proof -
  have h: "SEPARATOR \<notin> set ''/a/b.c''" "newline \<notin> set ''/a/b.c''"
    "SEPARATOR \<notin> set ''10''" "newline \<notin> set ''10''"
    "newline \<notin> set ''hello''" "newline \<notin> set ''world''"
    by (simp_all add: SEPARATOR_def newline_def)
  have s: "sanitize ''/a/b.c'' = ''/a/b.c''" "sanitize ''10'' = ''10''"
    "sanitize ''hello'' = ''hello''" "sanitize ''world'' = ''world''"
    by (simp_all add: sanitize_printable isprint_def)
  have st: "2 \<le> state (feed ''/a/b.c:10:hello'' (enter fresh_junk fresh_slot))"
    by (simp add: state_feed enter_def SEPARATOR_def del: feed.simps)
  from separators_in_description_are_literal [OF fresh_lengths h, of "[]"
      "feed ''/a/b.c:10:hello'' (enter fresh_junk fresh_slot)"] st
  show ?thesis
    by (simp add: s MATCH_PATH_LEN_def LINE_NUM_BUF_LEN_def MATCH_DESCRIPTION_LEN_def SEPARATOR_def)
qed

section \<open>The sign of the line number\<close>

text \<open>
  C8, as the code has it. Every call that returns 0 has read a line of three fields,
  and \<open>line\<close> is \<open>atoi\<close> of the text of the second one as \<open>line_num_buf\<close> holds it
  (at most 31 bytes of it): it is the number that text spells whenever that number is an
  \<^verbatim>\<open>int\<close>, and it is negative only when the field has a minus sign in it or the
  number it spells is above \<open>INT_MAX\<close>.
\<close>

theorem line_negative_only_with_minus_or_overflow:
  assumes "parse_next_match junk fp m = (0, fp', f)"
    and "length (filepath m) = MATCH_PATH_LEN" and "length (description m) = MATCH_DESCRIPTION_LEN"
    and "length junk = LINE_NUM_BUF_LEN"
  shows "\<exists>p n d. fp = p @ SEPARATOR # n @ SEPARATOR # d @ newline # fp'
    \<and> SEPARATOR \<notin> set p \<and> SEPARATOR \<notin> set n
    \<and> c_string (line_num_buf f) = Some (take (LINE_NUM_BUF_LEN - 1) (sanitize n))
    \<and> line f = Some (atoi (take (LINE_NUM_BUF_LEN - 1) (sanitize n)))
    \<and> (INT_MIN \<le> spelled (take (LINE_NUM_BUF_LEN - 1) (sanitize n))
         \<and> spelled (take (LINE_NUM_BUF_LEN - 1) (sanitize n)) \<le> INT_MAX
       \<longrightarrow> line f = Some (spelled (take (LINE_NUM_BUF_LEN - 1) (sanitize n))))
    \<and> (\<forall>v. line f = Some v \<and> v < 0
       \<longrightarrow> CHR ''-'' \<in> set n \<or> INT_MAX < spelled (take (LINE_NUM_BUF_LEN - 1) (sanitize n)))"
proof -
  from success_shape [OF assms(1)] obtain p n d
    where fp: "fp = p @ SEPARATOR # n @ SEPARATOR # d @ newline # fp'"
      and p: "SEPARATOR \<notin> set p" "newline \<notin> set p"
      and n: "SEPARATOR \<notin> set n" "newline \<notin> set n" and d: "newline \<notin> set d"
    by blast
  let ?t = "take (LINE_NUM_BUF_LEN - 1) (sanitize n)"
  from parse_line [OF assms(2-4) p n d, of fp'] assms(1)
  have c: "c_string (line_num_buf f) = Some ?t"
    and l: "line f = Some (atoi ?t)"
    by (auto simp: fp)
  have r: "line f = Some (spelled ?t)" if "INT_MIN \<le> spelled ?t \<and> spelled ?t \<le> INT_MAX"
    using that l by (simp add: atoi_fits)
  have "CHR ''-'' \<in> set n \<or> INT_MAX < spelled ?t" if "line f = Some v \<and> v < 0" for v
  proof (rule ccontr)
    assume "\<not> (CHR ''-'' \<in> set n \<or> INT_MAX < spelled ?t)"
    then have m: "CHR ''-'' \<notin> set n" and le: "spelled ?t \<le> INT_MAX"
      by simp_all
    from m have 0: "0 \<le> spelled ?t"
      by (rule spelled_field_nonneg)
    then have "INT_MIN \<le> spelled ?t"
      by (simp add: INT_MIN_def)
    with le l have "line f = Some (spelled ?t)"
      by (simp add: atoi_fits)
    with that 0 show False
      by simp
  qed
  with fp p(1) n(1) c l r show ?thesis
    by blast
qed

text \<open>
  The claim as it was stated fails on the line \<open>a:-5:x\<close>, where the call returns 0
  and \<open>line\<close> is -5, on the line \<open>a:2147483648:x\<close>, where the call returns 0 and
  \<open>line\<close> is -2147483648, and on a line whose second field is 31 times the digit 9,
  where the call returns 0 and \<open>line\<close> is -1.
\<close>

theorem line_negative_counterexample:
  "fst (parse_next_match fresh_junk (''a:-5:x'' @ [newline]) fresh_slot) = 0
   \<and> line (snd (snd (parse_next_match fresh_junk (''a:-5:x'' @ [newline]) fresh_slot))) = Some (- 5)
   \<and> fst (parse_next_match fresh_junk (''a:2147483648:x'' @ [newline]) fresh_slot) = 0
   \<and> line (snd (snd (parse_next_match fresh_junk (''a:2147483648:x'' @ [newline]) fresh_slot)))
       = Some (- 2147483648)
   \<and> fst (parse_next_match fresh_junk
            (''a:9999999999999999999999999999999:x'' @ [newline]) fresh_slot) = 0
   \<and> line (snd (snd (parse_next_match fresh_junk
            (''a:9999999999999999999999999999999:x'' @ [newline]) fresh_slot))) = Some (- 1)"
proof -
  have h: "SEPARATOR \<notin> set ''a''" "newline \<notin> set ''a''"
    "SEPARATOR \<notin> set ''-5''" "newline \<notin> set ''-5''" "newline \<notin> set ''x''"
    "SEPARATOR \<notin> set ''2147483648''" "newline \<notin> set ''2147483648''"
    "SEPARATOR \<notin> set ''9999999999999999999999999999999''"
    "newline \<notin> set ''9999999999999999999999999999999''"
    by (simp_all add: SEPARATOR_def newline_def)
  have s: "sanitize ''-5'' = ''-5''" "sanitize ''2147483648'' = ''2147483648''"
    "sanitize ''9999999999999999999999999999999'' = ''9999999999999999999999999999999''"
    by (simp_all add: sanitize_printable isprint_def)
  have a: "atoi ''-5'' = - 5" "atoi ''2147483648'' = - 2147483648"
    "atoi ''9999999999999999999999999999999'' = - 1"
    by (simp_all add: atoi_def strtol_def int_of_long_def spelled_def signed_value_def isspace_def
        isdigit_def LONG_MIN_def LONG_MAX_def)
  from parse_line [OF fresh_lengths h(1-5), of "[]"]
  have 1: "fst (parse_next_match fresh_junk (''a:-5:x'' @ [newline]) fresh_slot) = 0
    \<and> line (snd (snd (parse_next_match fresh_junk (''a:-5:x'' @ [newline]) fresh_slot))) = Some (- 5)"
    by (auto simp: s a LINE_NUM_BUF_LEN_def SEPARATOR_def)
  from parse_line [OF fresh_lengths h(1,2,6,7,5), of "[]"]
  have 2: "fst (parse_next_match fresh_junk (''a:2147483648:x'' @ [newline]) fresh_slot) = 0
    \<and> line (snd (snd (parse_next_match fresh_junk (''a:2147483648:x'' @ [newline]) fresh_slot)))
       = Some (- 2147483648)"
    by (auto simp: s a LINE_NUM_BUF_LEN_def SEPARATOR_def)
  from parse_line [OF fresh_lengths h(1,2,8,9,5), of "[]"]
  have 3: "fst (parse_next_match fresh_junk
            (''a:9999999999999999999999999999999:x'' @ [newline]) fresh_slot) = 0
    \<and> line (snd (snd (parse_next_match fresh_junk
            (''a:9999999999999999999999999999999:x'' @ [newline]) fresh_slot))) = Some (- 1)"
    by (auto simp: s a LINE_NUM_BUF_LEN_def SEPARATOR_def)
  from 1 2 3 show ?thesis
    by (intro conjI) simp_all
qed

theorem line_negative_only_with_minus_or_overflow_witness:
  "line (snd (snd (parse_next_match fresh_junk (''/a/b.c:10:hello world'' @ [newline]) fresh_slot)))
       = Some 10
   \<and> (\<exists>p n d. ''/a/b.c:-12:hello'' @ [newline] = p @ SEPARATOR # n @ SEPARATOR # d @ [newline]
        \<and> SEPARATOR \<notin> set p \<and> SEPARATOR \<notin> set n \<and> CHR ''-'' \<in> set n
        \<and> line (snd (snd (parse_next_match fresh_junk (''/a/b.c:-12:hello'' @ [newline]) fresh_slot)))
            = Some (- 12))"
proof -
  let ?r = "parse_next_match fresh_junk (''/a/b.c:10:hello world'' @ [newline]) fresh_slot"
  let ?q = "parse_next_match fresh_junk (''/a/b.c:-12:hello'' @ [newline]) fresh_slot"
  have h: "SEPARATOR \<notin> set ''/a/b.c''" "newline \<notin> set ''/a/b.c''"
    "SEPARATOR \<notin> set ''10''" "newline \<notin> set ''10''" "newline \<notin> set ''hello world''"
    "SEPARATOR \<notin> set ''-12''" "newline \<notin> set ''-12''" "newline \<notin> set ''hello''"
    by (simp_all add: SEPARATOR_def newline_def)
  from parse_line [OF fresh_lengths h(1-5), of "[]"]
  have r: "?r = (0, [], snd (snd ?r))"
    and c: "c_string (line_num_buf (snd (snd ?r))) = Some (take (LINE_NUM_BUF_LEN - 1) (sanitize ''10''))"
    by (auto simp: SEPARATOR_def)
  from parse_line [OF fresh_lengths h(1,2,6,7,8), of "[]"]
  have q: "?q = (0, [], snd (snd ?q))"
    and cq: "c_string (line_num_buf (snd (snd ?q))) = Some (take (LINE_NUM_BUF_LEN - 1) (sanitize ''-12''))"
    by (auto simp: SEPARATOR_def)
  have s: "take (LINE_NUM_BUF_LEN - 1) (sanitize ''10'') = ''10''"
    "take (LINE_NUM_BUF_LEN - 1) (sanitize ''-12'') = ''-12''"
    by (simp_all add: sanitize_printable isprint_def LINE_NUM_BUF_LEN_def)
  have a: "spelled ''10'' = 10" "spelled ''-12'' = - 12"
    by (simp_all add: spelled_def signed_value_def isspace_def isdigit_def)
  from line_negative_only_with_minus_or_overflow [OF r fresh_lengths] c s a
  have 1: "line (snd (snd ?r)) = Some 10"
    by (auto simp: INT_MIN_def INT_MAX_def)
  from line_negative_only_with_minus_or_overflow [OF q fresh_lengths] obtain p n d
    where i: "''/a/b.c:-12:hello'' @ [newline] = p @ SEPARATOR # n @ SEPARATOR # d @ [newline]"
      and sp: "SEPARATOR \<notin> set p" "SEPARATOR \<notin> set n"
      and t: "c_string (line_num_buf (snd (snd ?q))) = Some (take (LINE_NUM_BUF_LEN - 1) (sanitize n))"
      and l: "INT_MIN \<le> spelled (take (LINE_NUM_BUF_LEN - 1) (sanitize n))
         \<and> spelled (take (LINE_NUM_BUF_LEN - 1) (sanitize n)) \<le> INT_MAX
       \<longrightarrow> line (snd (snd ?q)) = Some (spelled (take (LINE_NUM_BUF_LEN - 1) (sanitize n)))"
      and v: "\<forall>v. line (snd (snd ?q)) = Some v \<and> v < 0
       \<longrightarrow> CHR ''-'' \<in> set n \<or> INT_MAX < spelled (take (LINE_NUM_BUF_LEN - 1) (sanitize n))"
    by blast
  from t cq s have e: "take (LINE_NUM_BUF_LEN - 1) (sanitize n) = ''-12''"
    by simp
  with l a have m: "line (snd (snd ?q)) = Some (- 12)"
    by (simp add: INT_MIN_def INT_MAX_def)
  with v e a have "CHR ''-'' \<in> set n"
    by (simp add: INT_MAX_def)
  with i sp m
  have 2: "\<exists>p n d. ''/a/b.c:-12:hello'' @ [newline] = p @ SEPARATOR # n @ SEPARATOR # d @ [newline]
        \<and> SEPARATOR \<notin> set p \<and> SEPARATOR \<notin> set n \<and> CHR ''-'' \<in> set n
        \<and> line (snd (snd ?q)) = Some (- 12)"
    by blast
  from 1 2 show ?thesis
    by blast
qed

section \<open>Count and capacity\<close>

text \<open>
  C9. From \<open>init_matchv\<close> on, the loop never calls the parser on a slot outside the
  array, whatever the stream, and it returns whenever \<^verbatim>\<open>realloc\<close> does not fail. When
  it returns, the count is the number of records in the stream, it is below the
  capacity, the array has the capacity's length, and the capacity is the least multiple
  of \<open>MATCH_CHUNK_LEN\<close> above the count: it has grown by one chunk each time the count
  reached it. And \<open>resize_matchv\<close> leaves the count alone and adds exactly
  \<open>MATCH_CHUNK_LEN\<close> to the capacity when the count equals it, and nothing otherwise.
\<close>

theorem count_within_capacity:
  "(init_matchv e = Inr g0 \<longrightarrow>
      parse_loop e fp g0 \<noteq> Inl Slot_out_of_range
    \<and> ((\<forall>n. realloc_ok e n) \<longrightarrow> (\<exists>g'. parse_loop e fp g0 = Inr g'))
    \<and> (parse_loop e fp g0 = Inr g \<longrightarrow>
         matchc g = matches_in fp \<and> matchc g < matcha g \<and> length (matchv g) = matcha g
       \<and> matcha g = MATCH_CHUNK_LEN * (matchc g div MATCH_CHUNK_LEN + 1)))
   \<and> (resize_matchv e g1 = Inr g2 \<longrightarrow>
      matchc g2 = matchc g1 \<and>
      matcha g2 = (if matchc g1 = matcha g1 then matcha g1 + MATCH_CHUNK_LEN else matcha g1))"
proof (intro conjI impI)
  assume i: "init_matchv e = Inr g0"
  then have s: "store_inv g0"
    by (rule store_inv_init)
  from s show "parse_loop e fp g0 \<noteq> Inl Slot_out_of_range"
    by (rule parse_loop_in_range)
  from s show "\<exists>g'. parse_loop e fp g0 = Inr g'" if "\<forall>n. realloc_ok e n"
    using that by (rule parse_loop_total)
  assume l: "parse_loop e fp g0 = Inr g"
  from i have "matchc g0 = 0"
    by (auto simp: init_matchv_def resize_matchv_def split: if_splits)
  with parse_loop_count [OF s l] show "matchc g = matches_in fp"
    by simp
  from s l have "store_inv g"
    by (rule store_inv_parse_loop)
  then show "matchc g < matcha g" and "length (matchv g) = matcha g"
    and "matcha g = MATCH_CHUNK_LEN * (matchc g div MATCH_CHUNK_LEN + 1)"
    by (simp_all add: store_inv_def)
next
  assume "resize_matchv e g1 = Inr g2"
  from resize_matchv_grows [OF this] show "matchc g2 = matchc g1"
    and "matcha g2 = (if matchc g1 = matcha g1 then matcha g1 + MATCH_CHUNK_LEN else matcha g1)"
    by simp_all
qed

theorem count_within_capacity_witness:
  "init_matchv (env0 None) = Inr store0 \<and> matchc store0 = 0 \<and> matcha store0 = 32
   \<and> (\<exists>g. parse_loop (env0 None) (concat (replicate 31 (''a:1:x'' @ [newline]))) store0 = Inr g
        \<and> matchc g = 31 \<and> matcha g = 32 \<and> length (matchv g) = 32)
   \<and> (\<exists>g. parse_loop (env0 None) (concat (replicate 32 (''a:1:x'' @ [newline]))) store0 = Inr g
        \<and> matchc g = 32 \<and> matcha g = 64 \<and> length (matchv g) = 64)
   \<and> (\<exists>g. parse_loop (env0 None) (concat (replicate 70 (''a:1:x'' @ [newline]))) store0 = Inr g
        \<and> matchc g = 70 \<and> matcha g = 96 \<and> length (matchv g) = 96)"
proof -
  have r: "\<forall>n. realloc_ok (env0 None) n"
    by (simp add: env0_def)
  have z: "resize_matchv (env0 None) \<lparr>matchc = 0, matcha = 0, matchv = []\<rparr> = Inr store0"
    using init_matchv_env0 [of None] by (simp add: init_matchv_def)
  have "newline \<notin> set ''a:1:x''" "2 \<le> count_list ''a:1:x'' SEPARATOR"
    by (simp_all add: newline_def SEPARATOR_def)
  note m = matches_in_lines [OF this, simplified]
  have run: "\<exists>g. parse_loop (env0 None) (concat (replicate k (''a:1:x'' @ [newline]))) store0 = Inr g
        \<and> matchc g = k \<and> matcha g = 32 * (k div 32 + 1) \<and> length (matchv g) = 32 * (k div 32 + 1)
        \<and> matchc store0 = 0 \<and> matcha store0 = 32" for k
  proof -
    note t = count_within_capacity [of "env0 None" store0
        "concat (replicate k (''a:1:x'' @ [newline]))" _
        "\<lparr>matchc = 0, matcha = 0, matchv = []\<rparr>" store0]
    from t r init_matchv_env0 [of None]
    obtain g where g: "parse_loop (env0 None) (concat (replicate k (''a:1:x'' @ [newline]))) store0 = Inr g"
      by blast
    from t [of g] g z init_matchv_env0 [of None] show ?thesis
      by (simp add: m MATCH_CHUNK_LEN_def)
  qed
  from run [of 31] run [of 32] run [of 70] init_matchv_env0 [of None] show ?thesis
    by auto
qed

section \<open>A last line without a newline\<close>

text \<open>
  C10. A last line that has its two separators but ends at the end of the stream: the
  call returns \<open>EOF\<close>, although it has reached state 2 and filled the record, and the
  loop ends with exactly the records (or the error) it would have without that line.
\<close>

theorem unterminated_last_line_is_dropped:
  assumes "newline \<notin> set l" and "2 \<le> count_list l SEPARATOR"
    and "pre = [] \<or> last pre = newline"
  shows "fst (parse_next_match junk l m) = EOF
    \<and> state (snd (snd (parse_next_match junk l m))) = 2
    \<and> map_sum id records (parse_loop e (pre @ l) g) = map_sum id records (parse_loop e pre g)"
  using assms parse_loop_complete_prefix [OF assms(1,3), of e g]
  by (simp add: parse_unterminated Let_def state_feed enter_def)

theorem unterminated_last_line_is_dropped_witness:
  "fst (parse_next_match fresh_junk ''/a/b.c:10:hello world'' fresh_slot) = EOF
   \<and> map_sum id records (parse_loop (env0 None) ''/a/b.c:10:hello world'' store0) = Inr []"
proof -
  have h: "newline \<notin> set ''/a/b.c:10:hello world''" "2 \<le> count_list ''/a/b.c:10:hello world'' SEPARATOR"
    "[] = [] \<or> last [] = newline"
    by (simp_all add: newline_def SEPARATOR_def)
  have "parse_loop (env0 None) [] store0 = Inr store0"
    by (rule parse_loop_Nil) (simp add: store0_def MATCH_CHUNK_LEN_def)
  moreover have "records store0 = []"
    by (simp add: records_def store0_def)
  ultimately show ?thesis
    using unterminated_last_line_is_dropped [OF h, of fresh_junk fresh_slot "env0 None" store0]
    by simp
qed

end
